theory Spec2Isabelle
  imports Complex_Main
begin

section \<open>Mess Up Game: the document parser, the session generator and the evaluator\<close>

text \<open>
  A shallow embedding of \<^verbatim>\<open>src/main.ts\<close>: \<^verbatim>\<open>parseMarkdownToGame\<close> with its flexible-group
  pass, \<^verbatim>\<open>startSession\<close>, \<^verbatim>\<open>isSlotCorrect\<close>, \<^verbatim>\<open>isBlockFullyRestored\<close>,
  \<^verbatim>\<open>checkWinCondition\<close> and the click and timer handlers that change the game state.

  Conventions of the model.
  \<^item> A JavaScript string is a \<open>string\<close>: a list of code units, here restricted to the
    units \<open>0..255\<close>. Of the code units that \<^verbatim>\<open>\s\<close> and \<^verbatim>\<open>trim()\<close> treat as white space,
    those in this range are TAB, LF, VT, FF, CR, SPACE and NBSP.
  \<^item> \<^verbatim>\<open>undefined\<close> and \<^verbatim>\<open>null\<close> are \<open>None\<close>; a property read on \<^verbatim>\<open>undefined\<close> is the value
    \<open>Inl TypeError\<close>.
  \<^item> \<^verbatim>\<open>Math.random()\<close> is an explicit source indexed by the number of the call.
  \<^item> Numbers that the source computes in double precision (the prefill count, the stability
    score, the random indices) are rationals rounded to the nearest double after every
    operation.
  \<^item> Rendering (DOM construction, the render cache, styles) is not part of the model.
\<close>

subsection \<open>Strings\<close>

text \<open>The class \<^verbatim>\<open>\s\<close>, which is also what \<^verbatim>\<open>String.prototype.trim\<close> strips.\<close>

definition is_ws :: "char \<Rightarrow> bool" where
  "is_ws c \<longleftrightarrow> c = CHR 0x09 \<or> c = CHR 0x0A \<or> c = CHR 0x0B \<or> c = CHR 0x0C \<or> c = CHR 0x0D
     \<or> c = CHR 0x20 \<or> c = CHR 0xA0"

text \<open>The line terminators, which \<^verbatim>\<open>.\<close> does not match.\<close>

definition is_line_term :: "char \<Rightarrow> bool" where
  "is_line_term c \<longleftrightarrow> c = CHR 0x0A \<or> c = CHR 0x0D"

text \<open>The class \<^verbatim>\<open>\d\<close>.\<close>

definition is_digit :: "char \<Rightarrow> bool" where
  "is_digit c \<longleftrightarrow> c \<in> set ''0123456789''"

definition trim :: "string \<Rightarrow> string" where
  "trim s = rev (dropWhile is_ws (rev (dropWhile is_ws s)))"

definition startsWith :: "string \<Rightarrow> string \<Rightarrow> bool" where
  "startsWith s p \<longleftrightarrow> take (length p) s = p"

definition nth_opt :: "'a list \<Rightarrow> nat \<Rightarrow> 'a option" where
  "nth_opt xs i = (if i < length xs then Some (xs ! i) else None)"

text \<open>Decimal rendering of an array index or a length inside a template literal.\<close>

definition digit_char :: "nat \<Rightarrow> char" where
  "digit_char d = ''0123456789'' ! d"

fun string_of_nat :: "nat \<Rightarrow> string" where
  "string_of_nat n =
     (if n < 10 then [digit_char n] else string_of_nat (n div 10) @ [digit_char (n mod 10)])"

declare string_of_nat.simps [simp del]

text \<open>
  \<^verbatim>\<open>content.split(/\r?\n/)\<close>: a line ends at LF or at CR LF; a CR that is not followed by
  LF stays in its line. The result always has at least one line.
\<close>

fun split_from :: "string \<Rightarrow> string \<Rightarrow> string list" where
  "split_from cur [] = [rev cur]"
| "split_from cur (c # cs) =
     (if c = CHR 0x0A then rev cur # split_from [] cs
      else if c = CHR 0x0D \<and> cs \<noteq> [] \<and> hd cs = CHR 0x0A then rev cur # split_from [] (tl cs)
      else split_from (c # cur) cs)"

definition split_lines :: "string \<Rightarrow> string list" where
  "split_lines content = split_from [] content"

subsection \<open>The regular expressions of the parser\<close>

text \<open>
  \<^verbatim>\<open>line.match(/^(#+)\s+(.*)/)\<close>: one or more \<^verbatim>\<open>#\<close>, then white space, then the rest of
  the line up to its first line terminator. The result is the level (the length of group 1)
  and group 2. Every quantifier is greedy and none can give a character back to the next
  one (\<^verbatim>\<open>#\<close> is no white space), so the match is the maximal one.
\<close>

definition headingMatch :: "string \<Rightarrow> (nat \<times> string) option" where
  "headingMatch line =
     (let hashes = takeWhile (\<lambda>c. c = CHR ''#'') line;
          rest = dropWhile (\<lambda>c. c = CHR ''#'') line
      in if hashes \<noteq> [] \<and> rest \<noteq> [] \<and> is_ws (hd rest)
         then Some (length hashes, takeWhile (\<lambda>c. \<not> is_line_term c) (dropWhile is_ws rest))
         else None)"

text \<open>
  \<^verbatim>\<open>text.match(/^(\s*)/)\<close> followed by \<^verbatim>\<open>.replace(/\t/g, '    ').length\<close>: the width of
  the leading white space, a tab counting four.
\<close>

definition indent_width :: "string \<Rightarrow> nat" where
  "indent_width txt = sum_list (map (\<lambda>c. if c = CHR 0x09 then 4 else 1) (takeWhile is_ws txt))"

definition is_bullet :: "char \<Rightarrow> bool" where
  "is_bullet c \<longleftrightarrow> c = CHR ''-'' \<or> c = CHR ''*'' \<or> c = CHR ''+''"

text \<open>
  \<^verbatim>\<open>text.match(/^\s*([-*+]|\d+\.)\s+/)\<close>: the result is group 1, the list marker. After the
  leading white space the first alternative needs a bullet and the second a digit, so at
  most one applies.
\<close>

definition listMatch :: "string \<Rightarrow> string option" where
  "listMatch txt =
     (case dropWhile is_ws txt of
        [] \<Rightarrow> None
      | c # r \<Rightarrow>
          if is_bullet c then (if r \<noteq> [] \<and> is_ws (hd r) then Some [c] else None)
          else
            (let ds = takeWhile is_digit (c # r); r2 = dropWhile is_digit (c # r)
             in if ds \<noteq> [] \<and> r2 \<noteq> [] \<and> hd r2 = CHR ''.'' \<and> tl r2 \<noteq> [] \<and> is_ws (hd (tl r2))
                then Some (ds @ ''.'') else None))"

text \<open>\<^verbatim>\<open>/^\s*([-*+])\s+/.test(item.text)\<close>.\<close>

definition isUnordered :: "string \<Rightarrow> bool" where
  "isUnordered txt =
     (case dropWhile is_ws txt of
        [] \<Rightarrow> False
      | c # r \<Rightarrow> is_bullet c \<and> r \<noteq> [] \<and> is_ws (hd r))"

text \<open>
  The separator row \<^verbatim>\<open>/^\|?\s*[:\- ]+\s*\|/\<close> needs backtracking, a space being both white
  space and a member of the class. A matcher maps a string to the remainders it can leave,
  the preferred one first; the expression matches when a remainder is left.
\<close>

type_synonym matcher = "string \<Rightarrow> string list"

definition m_char :: "char \<Rightarrow> matcher" where
  "m_char ch s = (case s of [] \<Rightarrow> [] | c # cs \<Rightarrow> if c = ch then [cs] else [])"

definition m_opt :: "matcher \<Rightarrow> matcher" where
  "m_opt m s = m s @ [s]"

fun m_star :: "(char \<Rightarrow> bool) \<Rightarrow> matcher" where
  "m_star p [] = [[]]"
| "m_star p (c # cs) = (if p c then m_star p cs @ [c # cs] else [c # cs])"

definition m_plus :: "(char \<Rightarrow> bool) \<Rightarrow> matcher" where
  "m_plus p s = (case s of [] \<Rightarrow> [] | c # cs \<Rightarrow> if p c then m_star p cs else [])"

definition m_seq :: "matcher \<Rightarrow> matcher \<Rightarrow> matcher" where
  "m_seq m1 m2 s = concat (map m2 (m1 s))"

definition is_sep_char :: "char \<Rightarrow> bool" where
  "is_sep_char c \<longleftrightarrow> c = CHR '':'' \<or> c = CHR ''-'' \<or> c = CHR '' ''"

definition separatorMatch :: "string \<Rightarrow> bool" where
  "separatorMatch s \<longleftrightarrow>
     m_seq (m_opt (m_char CHR ''|''))
       (m_seq (m_star is_ws) (m_seq (m_plus is_sep_char) (m_seq (m_star is_ws) (m_char CHR ''|'')))) s
     \<noteq> []"

subsection \<open>The data model\<close>

datatype error = TypeError

datatype Difficulty = Easy | Medium | Hard

record GameItem =
  id_str :: string
  text_str :: string
  originalHeading :: string
  originalIndex :: nat
  indentation :: nat
  isListItem :: bool
  listMarker :: "string option"
  isStatic :: bool
  isSubHeading :: bool
  blockId :: "string option"
  flexGroupId :: "string option"

record GameHeading =
  title :: string
  items :: "GameItem list"
  isRestored :: bool

record GameState =
  fileName :: string
  filePath :: string
  headings :: "GameHeading list"
  activeHeadingIndex :: "nat option"
  difficulty :: Difficulty
  slots :: "GameItem option list"
  prefilledIndices :: "nat set"
  poolHeightPercent :: nat
  poolItems :: "GameItem list"

subsection \<open>Random suffixes\<close>

text \<open>
  \<^verbatim>\<open>Math.random().toString(36).substring(2, 2 + n)\<close>: the source \<open>rnd\<close> gives, for the
  \<open>k\<close>-th call, the base-36 digits that follow \<^verbatim>\<open>0.\<close> (none when the number is 0); the
  suffix is its first \<open>n\<close> digits, each one of \<^verbatim>\<open>0-9a-z\<close>.
\<close>

type_synonym rndsrc = "nat \<Rightarrow> nat list"

definition base36_char :: "nat \<Rightarrow> char" where
  "base36_char d = ''0123456789abcdefghijklmnopqrstuvwxyz'' ! (d mod 36)"

definition random36 :: "rndsrc \<Rightarrow> nat \<Rightarrow> nat \<Rightarrow> string" where
  "random36 rnd k n = map base36_char (take n (rnd k))"

subsection \<open>parseMarkdownToGame: the line pass\<close>

text \<open>
  \<^verbatim>\<open>pushItem\<close>; \<open>k\<close> is the number of the call of \<^verbatim>\<open>Math.random\<close> it makes.
\<close>

definition pushItem ::
  "rndsrc \<Rightarrow> nat \<Rightarrow> GameHeading \<Rightarrow> string \<Rightarrow> bool \<Rightarrow> bool \<Rightarrow> string option \<Rightarrow> GameHeading" where
  "pushItem rnd k heading txt static subHeading bId =
     heading\<lparr>items := items heading @
       [\<lparr>id_str = title heading @ ''-'' @ string_of_nat (length (items heading)) @ ''-''
                   @ random36 rnd k 5,
         text_str = txt,
         originalHeading = title heading,
         originalIndex = length (items heading),
         indentation = indent_width txt,
         isListItem = (listMatch txt \<noteq> None),
         listMarker = listMatch txt,
         isStatic = static,
         isSubHeading = subHeading,
         blockId = bId,
         flexGroupId = None\<rparr>]\<rparr>"

text \<open>
  The variables of the loop: the groups pushed so far, the group in progress and the number
  of calls of \<^verbatim>\<open>Math.random\<close> made so far.
\<close>

record PState =
  p_headings :: "GameHeading list"
  p_current :: "GameHeading"
  p_rand :: nat

definition push :: "rndsrc \<Rightarrow> PState \<Rightarrow> string \<Rightarrow> bool \<Rightarrow> bool \<Rightarrow> string option \<Rightarrow> PState" where
  "push rnd st txt static subHeading bId =
     st\<lparr>p_current := pushItem rnd (p_rand st) (p_current st) txt static subHeading bId,
        p_rand := Suc (p_rand st)\<rparr>"

text \<open>The inner loop of a table: every following line that starts with \<^verbatim>\<open>|\<close> is a row.\<close>

function table_rows :: "rndsrc \<Rightarrow> string list \<Rightarrow> string \<Rightarrow> nat \<Rightarrow> PState \<Rightarrow> nat \<times> PState" where
  "table_rows rnd lines bId i st =
     (if i < length lines \<and> startsWith (trim (lines ! i)) ''|''
      then table_rows rnd lines bId (Suc i) (push rnd st (lines ! i) False False (Some bId))
      else (i, st))"
  by pat_completeness auto
termination
  by (relation "measure (\<lambda>(rnd, lines, bId, i, st). length lines - i)") auto

declare table_rows.simps [simp del]

text \<open>
  The inner loop of a callout: a line that starts with \<^verbatim>\<open>>\<close> is a member; a blank line or
  any other line ends the block and is left to the outer loop.
\<close>

function callout_rows :: "rndsrc \<Rightarrow> string list \<Rightarrow> string \<Rightarrow> nat \<Rightarrow> PState \<Rightarrow> nat \<times> PState" where
  "callout_rows rnd lines bId i st =
     (if i < length lines \<and> (startsWith (trim (lines ! i)) ''>'' \<or> trim (lines ! i) = [])
      then (if startsWith (trim (lines ! i)) ''>''
            then callout_rows rnd lines bId (Suc i) (push rnd st (lines ! i) False False (Some bId))
            else (i, st))
      else (i, st))"
  by pat_completeness auto
termination
  by (relation "measure (\<lambda>(rnd, lines, bId, i, st). length lines - i)") auto

declare callout_rows.simps [simp del]

text \<open>\<^verbatim>\<open>lines[i+1]?.trim() || ""\<close>.\<close>

definition nextLine :: "string list \<Rightarrow> nat \<Rightarrow> string" where
  "nextLine lines i = (case nth_opt lines (Suc i) of None \<Rightarrow> [] | Some l \<Rightarrow> trim l)"

text \<open>
  One iteration of the outer \<^verbatim>\<open>while (i < lines.length)\<close>, for \<open>i < length lines\<close>: the
  next value of \<open>i\<close> and the new state. The table branch passes \<^verbatim>\<open>lines[i+1]\<close> to
  \<^verbatim>\<open>pushItem\<close>, whose \<^verbatim>\<open>text.match\<close> would throw on \<^verbatim>\<open>undefined\<close>.
\<close>

definition parse_step :: "rndsrc \<Rightarrow> string list \<Rightarrow> nat \<Rightarrow> PState \<Rightarrow> error + (nat \<times> PState)" where
  "parse_step rnd lines i st =
     (let line = lines ! i; trimmed = trim line in
      if trimmed = [] \<and> length line = 0 then Inr (Suc i, st)
      else
        case headingMatch line of
          Some (level, ttl) \<Rightarrow>
            if level \<le> 2
            then Inr (Suc i,
                   st\<lparr>p_headings := (if length (items (p_current st)) > 0
                                       then p_headings st @ [p_current st] else p_headings st),
                      p_current := \<lparr>title = ttl, items = [], isRestored = False\<rparr>\<rparr>)
            else Inr (Suc i, push rnd st line False True None)
        | None \<Rightarrow>
            if startsWith trimmed ''|'' \<and> separatorMatch (nextLine lines i)
            then (case nth_opt lines (Suc i) of
                    None \<Rightarrow> Inl TypeError
                  | Some sep \<Rightarrow>
                      Inr (table_rows rnd lines (''table-'' @ string_of_nat i) (i + 2)
                             (push rnd (push rnd st line True False (Some (''table-'' @ string_of_nat i)))
                                sep True False (Some (''table-'' @ string_of_nat i)))))
            else if startsWith trimmed ''> [!''
            then Inr (callout_rows rnd lines (''callout-'' @ string_of_nat i) (Suc i)
                        (push rnd st line True False (Some (''callout-'' @ string_of_nat i))))
            else Inr (Suc i, push rnd st line False False None))"

lemma table_rows_ge: "i \<le> fst (table_rows rnd lines bId i st)"
proof (induction rnd lines bId i st rule: table_rows.induct)
  case (1 rnd lines bId i st)
  show ?case
  proof (cases "i < length lines \<and> startsWith (trim (lines ! i)) ''|''")
    case True
    then have "Suc i \<le> fst (table_rows rnd lines bId i st)"
      using "1.IH" by (subst table_rows.simps) simp
    then show ?thesis by simp
  next
    case False
    then show ?thesis by (subst table_rows.simps) auto
  qed
qed

lemma callout_rows_ge: "i \<le> fst (callout_rows rnd lines bId i st)"
proof (induction rnd lines bId i st rule: callout_rows.induct)
  case (1 rnd lines bId i st)
  show ?case
  proof (cases "i < length lines \<and> startsWith (trim (lines ! i)) ''>''")
    case True
    then have "Suc i \<le> fst (callout_rows rnd lines bId i st)"
      using "1.IH" by (subst callout_rows.simps) simp
    then show ?thesis by simp
  next
    case False
    then show ?thesis by (subst callout_rows.simps) auto
  qed
qed

text \<open>The branches of \<open>parse_step\<close>, one equation each.\<close>

lemma separatorMatch_Nil: "\<not> separatorMatch []"
  by (simp add: separatorMatch_def m_seq_def m_opt_def m_char_def m_plus_def)

lemma nextLine_Some:
  assumes "separatorMatch (nextLine lines i)"
  shows "Suc i < length lines" and "nth_opt lines (Suc i) = Some (lines ! Suc i)"
proof -
  show "Suc i < length lines"
  proof (rule ccontr)
    assume "\<not> Suc i < length lines"
    then have "nextLine lines i = []" by (simp add: nextLine_def nth_opt_def)
    with assms show False by (simp add: separatorMatch_Nil)
  qed
  then show "nth_opt lines (Suc i) = Some (lines ! Suc i)" by (simp add: nth_opt_def)
qed

lemma parse_step_blank:
  assumes "lines ! i = []"
  shows "parse_step rnd lines i st = Inr (Suc i, st)"
  using assms by (simp add: parse_step_def trim_def)

lemma parse_step_heading:
  assumes "lines ! i \<noteq> []" and "headingMatch (lines ! i) = Some (level, ttl)" and "level \<le> 2"
  shows "parse_step rnd lines i st =
           Inr (Suc i,
                st\<lparr>p_headings := (if length (items (p_current st)) > 0
                                    then p_headings st @ [p_current st] else p_headings st),
                   p_current := \<lparr>title = ttl, items = [], isRestored = False\<rparr>\<rparr>)"
  using assms by (simp add: parse_step_def Let_def)

lemma parse_step_subheading:
  assumes "lines ! i \<noteq> []" and "headingMatch (lines ! i) = Some (level, ttl)" and "\<not> level \<le> 2"
  shows "parse_step rnd lines i st = Inr (Suc i, push rnd st (lines ! i) False True None)"
  using assms by (simp add: parse_step_def Let_def)

lemma parse_step_table:
  assumes "lines ! i \<noteq> []" and "headingMatch (lines ! i) = None"
    and "startsWith (trim (lines ! i)) ''|''" and "separatorMatch (nextLine lines i)"
  shows "parse_step rnd lines i st =
           Inr (table_rows rnd lines (''table-'' @ string_of_nat i) (i + 2)
                  (push rnd (push rnd st (lines ! i) True False (Some (''table-'' @ string_of_nat i)))
                     (lines ! Suc i) True False (Some (''table-'' @ string_of_nat i))))"
  using assms nextLine_Some(2) [OF assms(4)] by (simp add: parse_step_def Let_def)

lemma parse_step_callout:
  assumes "lines ! i \<noteq> []" and "headingMatch (lines ! i) = None"
    and "\<not> (startsWith (trim (lines ! i)) ''|'' \<and> separatorMatch (nextLine lines i))"
    and "startsWith (trim (lines ! i)) ''> [!''"
  shows "parse_step rnd lines i st =
           Inr (callout_rows rnd lines (''callout-'' @ string_of_nat i) (Suc i)
                  (push rnd st (lines ! i) True False (Some (''callout-'' @ string_of_nat i))))"
  using assms by (auto simp add: parse_step_def Let_def)

lemma parse_step_plain:
  assumes "lines ! i \<noteq> []" and "headingMatch (lines ! i) = None"
    and "\<not> (startsWith (trim (lines ! i)) ''|'' \<and> separatorMatch (nextLine lines i))"
    and "\<not> startsWith (trim (lines ! i)) ''> [!''"
  shows "parse_step rnd lines i st = Inr (Suc i, push rnd st (lines ! i) False False None)"
  using assms by (auto simp add: parse_step_def Let_def)

lemma parse_step_cases [case_names blank heading subheading table callout plain]:
  obtains
    (blank) "lines ! i = []" "parse_step rnd lines i st = Inr (Suc i, st)"
  | (heading) level ttl where
      "lines ! i \<noteq> []" "headingMatch (lines ! i) = Some (level, ttl)" "level \<le> 2"
      "parse_step rnd lines i st =
         Inr (Suc i,
              st\<lparr>p_headings := (if length (items (p_current st)) > 0
                                  then p_headings st @ [p_current st] else p_headings st),
                 p_current := \<lparr>title = ttl, items = [], isRestored = False\<rparr>\<rparr>)"
  | (subheading) level ttl where
      "lines ! i \<noteq> []" "headingMatch (lines ! i) = Some (level, ttl)" "\<not> level \<le> 2"
      "parse_step rnd lines i st = Inr (Suc i, push rnd st (lines ! i) False True None)"
  | (table)
      "lines ! i \<noteq> []" "headingMatch (lines ! i) = None"
      "startsWith (trim (lines ! i)) ''|''" "separatorMatch (nextLine lines i)"
      "Suc i < length lines"
      "parse_step rnd lines i st =
         Inr (table_rows rnd lines (''table-'' @ string_of_nat i) (i + 2)
                (push rnd (push rnd st (lines ! i) True False (Some (''table-'' @ string_of_nat i)))
                   (lines ! Suc i) True False (Some (''table-'' @ string_of_nat i))))"
  | (callout)
      "lines ! i \<noteq> []" "headingMatch (lines ! i) = None"
      "\<not> (startsWith (trim (lines ! i)) ''|'' \<and> separatorMatch (nextLine lines i))"
      "startsWith (trim (lines ! i)) ''> [!''"
      "parse_step rnd lines i st =
         Inr (callout_rows rnd lines (''callout-'' @ string_of_nat i) (Suc i)
                (push rnd st (lines ! i) True False (Some (''callout-'' @ string_of_nat i))))"
  | (plain)
      "lines ! i \<noteq> []" "headingMatch (lines ! i) = None"
      "\<not> (startsWith (trim (lines ! i)) ''|'' \<and> separatorMatch (nextLine lines i))"
      "\<not> startsWith (trim (lines ! i)) ''> [!''"
      "parse_step rnd lines i st = Inr (Suc i, push rnd st (lines ! i) False False None)"
proof (cases "lines ! i = []")
  case True
  then show ?thesis using blank parse_step_blank by blast
next
  case nonblank: False
  show ?thesis
  proof (cases "headingMatch (lines ! i)")
    case (Some lt)
    obtain level ttl where lt: "lt = (level, ttl)" by (cases lt)
    show ?thesis
    proof (cases "level \<le> 2")
      case True
      then show ?thesis
        using heading [of level ttl] parse_step_heading [of lines i level ttl rnd st] nonblank Some lt
        by blast
    next
      case False
      then show ?thesis
        using subheading [of level ttl] parse_step_subheading [of lines i level ttl rnd st]
          nonblank Some lt
        by blast
    qed
  next
    case None
    show ?thesis
    proof (cases "startsWith (trim (lines ! i)) ''|'' \<and> separatorMatch (nextLine lines i)")
      case True
      then show ?thesis
        using table parse_step_table [of lines i rnd st] nextLine_Some(1) [of lines i] nonblank None
        by blast
    next
      case notable: False
      show ?thesis
      proof (cases "startsWith (trim (lines ! i)) ''> [!''")
        case True
        then show ?thesis
          using callout parse_step_callout [of lines i rnd st] nonblank None notable by blast
      next
        case False
        then show ?thesis
          using plain parse_step_plain [of lines i rnd st] nonblank None notable by blast
      qed
    qed
  qed
qed

lemma parse_step_progress:
  assumes "parse_step rnd lines i st = Inr (i', st')"
  shows "i < i'"
proof (cases rule: parse_step_cases [of lines i rnd st])
  case table
  from table(6) assms
  have "fst (table_rows rnd lines (''table-'' @ string_of_nat i) (i + 2)
               (push rnd (push rnd st (lines ! i) True False (Some (''table-'' @ string_of_nat i)))
                  (lines ! Suc i) True False (Some (''table-'' @ string_of_nat i)))) = i'"
    by (metis Inr_inject fst_conv)
  moreover
  have "i + 2 \<le> fst (table_rows rnd lines (''table-'' @ string_of_nat i) (i + 2)
                  (push rnd (push rnd st (lines ! i) True False (Some (''table-'' @ string_of_nat i)))
                     (lines ! Suc i) True False (Some (''table-'' @ string_of_nat i))))"
    by (rule table_rows_ge)
  ultimately show ?thesis by linarith
next
  case callout
  from callout(5) assms
  have "fst (callout_rows rnd lines (''callout-'' @ string_of_nat i) (Suc i)
               (push rnd st (lines ! i) True False (Some (''callout-'' @ string_of_nat i)))) = i'"
    by (metis Inr_inject fst_conv)
  moreover
  have "Suc i \<le> fst (callout_rows rnd lines (''callout-'' @ string_of_nat i) (Suc i)
                  (push rnd st (lines ! i) True False (Some (''callout-'' @ string_of_nat i))))"
    by (rule callout_rows_ge)
  ultimately show ?thesis by linarith
qed (use assms in auto)

text \<open>The outer loop, from line \<open>i\<close> on.\<close>

function parse_loop :: "rndsrc \<Rightarrow> string list \<Rightarrow> nat \<Rightarrow> PState \<Rightarrow> error + PState" where
  "parse_loop rnd lines i st =
     (if i < length lines
      then (case parse_step rnd lines i st of
              Inl e \<Rightarrow> Inl e
            | Inr (i', st') \<Rightarrow> parse_loop rnd lines i' st')
      else Inr st)"
  by pat_completeness auto
termination
proof (relation "measure (\<lambda>(rnd, lines, i, st). length lines - i)")
  show "wf (measure (\<lambda>(rnd, lines, i, st). length lines - i))" by simp
next
  fix rnd :: rndsrc and lines :: "string list" and i :: nat and st :: PState
    and x2 :: "nat \<times> PState" and i' :: nat and st' :: PState
  assume "i < length lines" "parse_step rnd lines i st = Inr x2" "(i', st') = x2"
  then have "i < i'" using parse_step_progress by metis
  with \<open>i < length lines\<close>
  show "((rnd, lines, i', st'), (rnd, lines, i, st)) \<in> measure (\<lambda>(rnd, lines, i, st). length lines - i)"
    by simp
qed

declare parse_loop.simps [simp del]

subsection \<open>parseMarkdownToGame: the flexible-group pass\<close>

text \<open>
  The variables of the pass over one group: the items (whose \<open>flexGroupId\<close> the pass
  assigns), the stack of open parents as pairs (indent, index) with its top first, the
  current flexible group, the parent and the indentation of the previous item, and the
  number of calls of \<^verbatim>\<open>Math.random\<close> made so far.
\<close>

record FlexState =
  fx_items :: "GameItem list"
  parentStack :: "(int \<times> int) list"
  currentFlexGroupId :: "string option"
  lastParentIdx :: int
  lastIndent :: int
  fx_rand :: nat

text \<open>
  \<^verbatim>\<open>while (parentStack.length > 1 && top.indent >= item.indentation) parentStack.pop()\<close>.
\<close>

fun pop_parents :: "(int \<times> int) list \<Rightarrow> int \<Rightarrow> (int \<times> int) list" where
  "pop_parents (p # q # rest) ind =
     (if fst p \<ge> ind then pop_parents (q # rest) ind else p # q # rest)"
| "pop_parents stack ind = stack"

text \<open>The body of \<^verbatim>\<open>for (let j = 0; j < items.length; j++)\<close> in the group titled \<open>ttl\<close>.\<close>

definition flex_step :: "rndsrc \<Rightarrow> string \<Rightarrow> nat \<Rightarrow> FlexState \<Rightarrow> FlexState" where
  "flex_step rnd ttl j fs =
     (let item = fx_items fs ! j;
          stack = pop_parents (parentStack fs) (int (indentation item));
          parentIdx = snd (hd stack);
          unordered = isUnordered (text_str item);
          hasChildren = (Suc j < length (fx_items fs)
                           \<and> indentation (fx_items fs ! Suc j) > indentation item);
          static = (isStatic item \<or> isSubHeading item);
          newId = ''flex-'' @ ttl @ ''-'' @ string_of_nat j @ ''-'' @ random36 rnd (fx_rand fs) 3;
          fresh = (currentFlexGroupId fs = None \<or> parentIdx \<noteq> lastParentIdx fs
                     \<or> int (indentation item) \<noteq> lastIndent fs);
          fs1 = (if \<not> unordered \<or> static \<or> hasChildren
                 then fs\<lparr>currentFlexGroupId := None\<rparr>
                 else if fresh
                 then fs\<lparr>fx_items := (fx_items fs)[j := item\<lparr>flexGroupId := Some newId\<rparr>],
                         currentFlexGroupId := Some newId,
                         fx_rand := Suc (fx_rand fs)\<rparr>
                 else fs\<lparr>fx_items := (fx_items fs)[j := item\<lparr>flexGroupId := currentFlexGroupId fs\<rparr>]\<rparr>)
      in fs1\<lparr>parentStack := (if hasChildren then (int (indentation item), int j) # stack else stack),
             lastParentIdx := parentIdx,
             lastIndent := int (indentation item)\<rparr>)"

definition flex_init :: "GameItem list \<Rightarrow> nat \<Rightarrow> FlexState" where
  "flex_init its k =
     \<lparr>fx_items = its, parentStack = [(- 1, - 1)], currentFlexGroupId = None,
      lastParentIdx = - 2, lastIndent = - 1, fx_rand = k\<rparr>"

definition flex_heading :: "rndsrc \<Rightarrow> nat \<Rightarrow> GameHeading \<Rightarrow> GameHeading \<times> nat" where
  "flex_heading rnd k h =
     (let fs = fold (flex_step rnd (title h)) [0..<length (items h)] (flex_init (items h) k)
      in (h\<lparr>items := fx_items fs\<rparr>, fx_rand fs))"

text \<open>\<^verbatim>\<open>headings.forEach(h => ...)\<close>, the random source running on from group to group.\<close>

fun flex_all :: "rndsrc \<Rightarrow> nat \<Rightarrow> GameHeading list \<Rightarrow> GameHeading list" where
  "flex_all rnd k [] = []"
| "flex_all rnd k (h # hs) =
     fst (flex_heading rnd k h) # flex_all rnd (snd (flex_heading rnd k h)) hs"

subsection \<open>parseMarkdownToGame\<close>

definition parse_init :: PState where
  "parse_init =
     \<lparr>p_headings = [], p_current = \<lparr>title = ''Introduction'', items = [], isRestored = False\<rparr>,
      p_rand = 0\<rparr>"

definition parseMarkdownToGame :: "rndsrc \<Rightarrow> string \<Rightarrow> string \<Rightarrow> string \<Rightarrow> error + GameState" where
  "parseMarkdownToGame rnd content fName fPath =
     (case parse_loop rnd (split_lines content) 0 parse_init of
        Inl e \<Rightarrow> Inl e
      | Inr st \<Rightarrow>
          Inr \<lparr>fileName = fName, filePath = fPath,
               headings = flex_all rnd (p_rand st) (p_headings st @ [p_current st]),
               activeHeadingIndex = None, difficulty = Medium,
               slots = [], prefilledIndices = {},
               poolHeightPercent = 30,
               poolItems = []\<rparr>)"

subsection \<open>The correctness evaluator\<close>

text \<open>The truth value of an optional string: \<^verbatim>\<open>undefined\<close> and \<^verbatim>\<open>""\<close> are falsy.\<close>

definition truthy :: "string option \<Rightarrow> bool" where
  "truthy s \<longleftrightarrow> s \<noteq> None \<and> s \<noteq> Some []"

text \<open>
  \<^verbatim>\<open>isSlotCorrect(itemInSlot, originalIndex, heading)\<close>. When \<open>idx\<close> is out of range,
  \<^verbatim>\<open>heading.items[originalIndex]\<close> is \<^verbatim>\<open>undefined\<close> and reading its \<^verbatim>\<open>flexGroupId\<close> throws.
\<close>

definition isSlotCorrect :: "GameItem option \<Rightarrow> nat \<Rightarrow> GameHeading \<Rightarrow> error + bool" where
  "isSlotCorrect itemInSlot idx heading =
     (case itemInSlot of
        None \<Rightarrow> Inr False
      | Some it \<Rightarrow>
          if originalIndex it = idx \<and> originalHeading it = title heading then Inr True
          else
            (case nth_opt (items heading) idx of
               None \<Rightarrow> Inl TypeError
             | Some originalItemAtThisSlot \<Rightarrow>
                 if truthy (flexGroupId originalItemAtThisSlot)
                    \<and> flexGroupId it = flexGroupId originalItemAtThisSlot
                 then Inr True
                 else Inr False))"

text \<open>
  \<^verbatim>\<open>Array.prototype.every\<close> with a callback that may throw: it stops at the first element
  whose callback returns false.
\<close>

fun every_e :: "('a \<Rightarrow> error + bool) \<Rightarrow> 'a list \<Rightarrow> error + bool" where
  "every_e p [] = Inr True"
| "every_e p (x # xs) =
     (case p x of Inl e \<Rightarrow> Inl e | Inr b \<Rightarrow> if b then every_e p xs else Inr False)"

text \<open>\<^verbatim>\<open>slots[idx]\<close>: \<^verbatim>\<open>undefined\<close> out of range, which \<^verbatim>\<open>isSlotCorrect\<close> treats as empty.\<close>

definition slot_at :: "GameItem option list \<Rightarrow> nat \<Rightarrow> GameItem option" where
  "slot_at sl idx = (case nth_opt sl idx of None \<Rightarrow> None | Some s \<Rightarrow> s)"

definition blockIndices :: "string \<Rightarrow> GameHeading \<Rightarrow> nat list" where
  "blockIndices bId heading =
     filter (\<lambda>idx. blockId (items heading ! idx) = Some bId) [0..<length (items heading)]"

definition isBlockFullyRestored :: "string \<Rightarrow> GameHeading \<Rightarrow> GameItem option list \<Rightarrow> error + bool" where
  "isBlockFullyRestored bId heading sl =
     every_e (\<lambda>idx. isSlotCorrect (slot_at sl idx) idx heading) (blockIndices bId heading)"

text \<open>
  \<^verbatim>\<open>state.slots.every((item, idx) => this.isSlotCorrect(item, idx, heading))\<close>, the test
  of \<^verbatim>\<open>checkWinCondition\<close>.
\<close>

definition isPerfect :: "GameHeading \<Rightarrow> GameItem option list \<Rightarrow> error + bool" where
  "isPerfect heading sl =
     every_e (\<lambda>(idx, item). isSlotCorrect item idx heading) (enumerate 0 sl)"

subsection \<open>Double precision\<close>

text \<open>
  A double is the rational it denotes. \<open>round_double\<close> rounds a rational to the nearest
  number with a 53-bit significand, ties to even, as every arithmetic operation and every
  decimal literal of the source does. Overflow and subnormal numbers are not modelled: the
  numbers of this program (an indentation, a count, a fraction, a score) are far from both.
\<close>

function bitlen :: "int \<Rightarrow> int" where
  "bitlen n = (if n \<le> 0 then 0 else 1 + bitlen (n div 2))"
  by pat_completeness auto
termination
  by (relation "measure nat") auto

declare bitlen.simps [simp del]

text \<open>For \<open>x > 0\<close>, the exponent \<open>e\<close> with \<open>2 ^ e \<le> x < 2 ^ (e + 1)\<close>.\<close>

definition ilog2 :: "rat \<Rightarrow> int" where
  "ilog2 x =
     (let d = bitlen (fst (quotient_of x)) - bitlen (snd (quotient_of x))
      in if 2 powi d \<le> x then d else d - 1)"

definition round_half_even :: "rat \<Rightarrow> int" where
  "round_half_even q =
     (let f = \<lfloor>q\<rfloor>; r = q - of_int f
      in if r < 1 / 2 then f else if 1 / 2 < r then f + 1 else if even f then f else f + 1)"

definition round_double :: "rat \<Rightarrow> rat" where
  "round_double x =
     (if x = 0 then 0
      else sgn x * of_int (round_half_even (\<bar>x\<bar> / 2 powi (ilog2 \<bar>x\<bar> - 52))) * 2 powi (ilog2 \<bar>x\<bar> - 52))"

definition fmul :: "rat \<Rightarrow> rat \<Rightarrow> rat" where
  "fmul x y = round_double (x * y)"

definition fdiv :: "rat \<Rightarrow> rat \<Rightarrow> rat" where
  "fdiv x y = round_double (x / y)"

definition fadd :: "rat \<Rightarrow> rat \<Rightarrow> rat" where
  "fadd x y = round_double (x + y)"

subsection \<open>The session generator\<close>

record DifficultyConfig =
  prefillPercent :: rat
  intruders :: nat
  label_str :: string

definition DIFFICULTY_CONFIG :: "Difficulty \<Rightarrow> DifficultyConfig" where
  "DIFFICULTY_CONFIG d =
     (case d of
        Easy \<Rightarrow> \<lparr>prefillPercent = round_double (7 / 10), intruders = 1, label_str = ''Easy''\<rparr>
      | Medium \<Rightarrow> \<lparr>prefillPercent = round_double (4 / 10), intruders = 3, label_str = ''Medium''\<rparr>
      | Hard \<Rightarrow> \<lparr>prefillPercent = round_double (1 / 10), intruders = 6, label_str = ''Hard''\<rparr>)"

text \<open>
  \<^verbatim>\<open>Math.random()\<close> as a number: the source \<open>rand\<close> gives 53 random bits for the \<open>k\<close>-th
  call, and the number is that many units of \<open>2 ^ -53\<close>, so it lies in \<open>[0, 1)\<close>.
\<close>

type_synonym numsrc = "nat \<Rightarrow> nat"

definition random_number :: "numsrc \<Rightarrow> nat \<Rightarrow> rat" where
  "random_number rand k = of_int (int (rand k) mod 2 ^ 53) / 2 ^ 53"

definition stabilityScore :: "numsrc \<Rightarrow> nat \<Rightarrow> GameItem \<Rightarrow> rat" where
  "stabilityScore rand k item =
     (if isSubHeading item then 999
      else fadd (fdiv 100 (fadd (fdiv (of_nat (indentation item)) 4) 1))
                (fmul (random_number rand k) 20))"

text \<open>
  \<^verbatim>\<open>playableIndices.map(idx => ({ idx, stabilityScore }))\<close>; only an item that is no
  sub-heading draws a random number.
\<close>

fun weightedItems :: "numsrc \<Rightarrow> GameItem list \<Rightarrow> nat list \<Rightarrow> nat \<Rightarrow> (nat \<times> rat) list" where
  "weightedItems rand its [] k = []"
| "weightedItems rand its (idx # rest) k =
     (idx, stabilityScore rand k (its ! idx))
       # weightedItems rand its rest (if isSubHeading (its ! idx) then k else Suc k)"

definition drawn :: "GameItem list \<Rightarrow> nat list \<Rightarrow> nat" where
  "drawn its idxs = length (filter (\<lambda>idx. \<not> isSubHeading (its ! idx)) idxs)"

definition playableIndices :: "GameHeading \<Rightarrow> nat list" where
  "playableIndices heading =
     filter (\<lambda>idx. \<not> isStatic (items heading ! idx)) [0..<length (items heading)]"

text \<open>\<^verbatim>\<open>Math.floor(playableIndices.length * config.prefillPercent)\<close>.\<close>

definition numToPrefill :: "Difficulty \<Rightarrow> nat \<Rightarrow> nat" where
  "numToPrefill d n = nat \<lfloor>fmul (of_nat n) (prefillPercent (DIFFICULTY_CONFIG d))\<rfloor>"

text \<open>
  \<^verbatim>\<open>weightedItems.sort((a, b) => b.stabilityScore - a.stabilityScore)\<close>, a stable sort
  by descending score, and the indices of its first \<open>numToPrefill\<close> elements.
\<close>

definition prefilledSet :: "numsrc \<Rightarrow> Difficulty \<Rightarrow> GameHeading \<Rightarrow> nat set" where
  "prefilledSet rand d heading =
     set (map fst
       (take (numToPrefill d (length (playableIndices heading)))
          (sort_key (\<lambda>w. - snd w)
             (weightedItems rand (items heading) (playableIndices heading) 0))))"

text \<open>
  \<^verbatim>\<open>heading.items.forEach((item, idx) => { if (item.isStatic || prefilledSet.has(idx))
  slots[idx] = item })\<close> on the array \<^verbatim>\<open>new Array(n).fill(null)\<close>.
\<close>

fun fill_slots :: "nat set \<Rightarrow> (nat \<times> GameItem) list \<Rightarrow> GameItem option list \<Rightarrow> GameItem option list" where
  "fill_slots pre [] sl = sl"
| "fill_slots pre ((idx, item) # rest) sl =
     fill_slots pre rest (if isStatic item \<or> idx \<in> pre then sl[idx := Some item] else sl)"

definition initialSlots :: "nat set \<Rightarrow> GameHeading \<Rightarrow> GameItem option list" where
  "initialSlots pre heading =
     fill_slots pre (enumerate 0 (items heading)) (replicate (length (items heading)) None)"

text \<open>\<^verbatim>\<open>Math.floor(Math.random() * n)\<close>.\<close>

definition randomIndex :: "numsrc \<Rightarrow> nat \<Rightarrow> nat \<Rightarrow> nat" where
  "randomIndex rand k n = nat \<lfloor>fmul (random_number rand k) (of_nat n)\<rfloor>"

text \<open>
  The loop \<^verbatim>\<open>for (let i = 0; i < config.intruders; i++)\<close>, with \<open>n\<close> iterations left. An
  \<^verbatim>\<open>undefined\<close> group is skipped by the guard; an \<^verbatim>\<open>undefined\<close> item would throw at
  \<^verbatim>\<open>randomI.isStatic\<close>.
\<close>

fun pick_intruders :: "numsrc \<Rightarrow> GameHeading list \<Rightarrow> nat \<Rightarrow> nat \<Rightarrow> error + GameItem list" where
  "pick_intruders rand others 0 k = Inr []"
| "pick_intruders rand others (Suc n) k =
     (case nth_opt others (randomIndex rand k (length others)) of
        None \<Rightarrow> pick_intruders rand others n (Suc k)
      | Some randomH \<Rightarrow>
          if length (items randomH) > 0
          then (case nth_opt (items randomH) (randomIndex rand (Suc k) (length (items randomH))) of
                  None \<Rightarrow> Inl TypeError
                | Some randomI \<Rightarrow>
                    (case pick_intruders rand others n (Suc (Suc k)) of
                       Inl e \<Rightarrow> Inl e
                     | Inr rest \<Rightarrow> Inr (if \<not> isStatic randomI then randomI # rest else rest)))
          else pick_intruders rand others n (Suc k))"

text \<open>\<^verbatim>\<open>this.state.headings.filter((_, i) => i !== index)\<close>.\<close>

definition otherHeadings :: "GameHeading list \<Rightarrow> nat \<Rightarrow> GameHeading list" where
  "otherHeadings hs index = map snd (filter (\<lambda>(i, h). i \<noteq> index) (enumerate 0 hs))"

definition sessionIntruders :: "numsrc \<Rightarrow> GameState \<Rightarrow> nat \<Rightarrow> error + GameItem list" where
  "sessionIntruders rand st index =
     (if length (otherHeadings (headings st) index) > 0
      then pick_intruders rand (otherHeadings (headings st) index)
             (intruders (DIFFICULTY_CONFIG (difficulty st)))
             (drawn (items (headings st ! index)) (playableIndices (headings st ! index)))
      else Inr [])"

text \<open>The ids of the items that occupy a slot.\<close>

definition list_of_slot :: "GameItem option \<Rightarrow> GameItem list" where
  "list_of_slot s = (case s of None \<Rightarrow> [] | Some it \<Rightarrow> [it])"

definition itemsInSlots :: "GameItem option list \<Rightarrow> string set" where
  "itemsInSlots sl = set (map id_str (concat (map list_of_slot sl)))"

text \<open>
  \<^verbatim>\<open>startSession(index)\<close> on a state that is not \<^verbatim>\<open>null\<close>. The final
  \<^verbatim>\<open>.sort(() => Math.random() - 0.5)\<close> has no consistent comparator, so the order it
  leaves is the engine's; it is the parameter \<open>shuffle\<close>.
\<close>

definition startSession ::
  "numsrc \<Rightarrow> (GameItem list \<Rightarrow> GameItem list) \<Rightarrow> nat \<Rightarrow> GameState \<Rightarrow> error + GameState" where
  "startSession rand shuffle index st =
     (case nth_opt (headings st) index of
        None \<Rightarrow> Inl TypeError
      | Some heading \<Rightarrow>
          (let pre = prefilledSet rand (difficulty st) heading;
               sl = initialSlots pre heading
           in case sessionIntruders rand st index of
                Inl e \<Rightarrow> Inl e
              | Inr ins \<Rightarrow>
                  Inr (st\<lparr>activeHeadingIndex := Some index,
                          prefilledIndices := pre,
                          slots := sl,
                          poolItems :=
                            shuffle (filter (\<lambda>item. \<not> isStatic item \<and> id_str item \<notin> itemsInSlots sl)
                                       (items heading) @ ins)\<rparr>)))"

subsection \<open>The view: click handlers and the win timer\<close>

text \<open>
  The view holds the game state, the selected pill and the callbacks that
  \<^verbatim>\<open>checkWinCondition\<close> has scheduled with \<^verbatim>\<open>setTimeout\<close> and that have not fired yet. All
  these callbacks do the same, so their number is kept.
\<close>

record View =
  vstate :: GameState
  selectedPill :: "GameItem option"
  pendingTimers :: nat

text \<open>
  \<^verbatim>\<open>checkWinCondition(heading)\<close>, the heading being the object \<^verbatim>\<open>state.headings[hidx]\<close>:
  its caller passes the heading of the session on screen.
\<close>

definition checkWinCondition :: "nat \<Rightarrow> View \<Rightarrow> error + View" where
  "checkWinCondition hidx v =
     (case nth_opt (headings (vstate v)) hidx of
        None \<Rightarrow> Inl TypeError
      | Some heading \<Rightarrow>
          (case isPerfect heading (slots (vstate v)) of
             Inl e \<Rightarrow> Inl e
           | Inr perfect \<Rightarrow>
               if perfect
               then Inr (v\<lparr>vstate := (vstate v)\<lparr>headings :=
                                     (headings (vstate v))[hidx := heading\<lparr>isRestored := True\<rparr>]\<rparr>,
                           pendingTimers := Suc (pendingTimers v)\<rparr>)
               else Inr v))"

text \<open>
  The callback of the timer:
  \<^verbatim>\<open>() => { state.activeHeadingIndex = null; this.render(); }\<close>.
\<close>

definition winTimerFires :: "View \<Rightarrow> View" where
  "winTimerFires v =
     v\<lparr>vstate := (vstate v)\<lparr>activeHeadingIndex := None\<rparr>, pendingTimers := pendingTimers v - 1\<rparr>"

text \<open>
  What the player and the clock can do. A card of the lobby carries the random numbers and
  the engine's shuffle of the session it starts.
\<close>

datatype Event =
    SelectDifficulty Difficulty
  | OpenCard nat numsrc "GameItem list \<Rightarrow> GameItem list"
  | Back
  | ClickPill GameItem
  | ClickItem nat
  | ClickDropZone nat
  | TimerFires

text \<open>
  \<^verbatim>\<open>renderRepairSession\<close> draws a block whose members are all correct as one row without
  handlers; the other slots get a clickable item or a drop zone.
\<close>

definition drawnAsBlock :: "GameHeading \<Rightarrow> GameItem option list \<Rightarrow> nat \<Rightarrow> error + bool" where
  "drawnAsBlock heading sl idx =
     (if truthy (blockId (items heading ! idx))
      then isBlockFullyRestored (the (blockId (items heading ! idx))) heading sl
      else Inr False)"

text \<open>
  The handlers, each guarded by the condition under which \<^verbatim>\<open>render\<close> has attached it: the
  lobby is on screen when \<open>activeHeadingIndex\<close> is \<open>None\<close>, a session otherwise. An
  event whose handler is not attached leaves the view as it is.
\<close>

definition handleEvent :: "Event \<Rightarrow> View \<Rightarrow> error + View" where
  "handleEvent ev v =
     (let st = vstate v in
      case ev of
        SelectDifficulty d \<Rightarrow>
          if activeHeadingIndex st = None then Inr (v\<lparr>vstate := st\<lparr>difficulty := d\<rparr>\<rparr>) else Inr v
      | OpenCard index rand shuffle \<Rightarrow>
          if activeHeadingIndex st = None \<and> index < length (headings st)
             \<and> \<not> isRestored (headings st ! index)
          then (case startSession rand shuffle index st of
                  Inl e \<Rightarrow> Inl e
                | Inr st' \<Rightarrow> Inr (v\<lparr>vstate := st'\<rparr>))
          else Inr v
      | Back \<Rightarrow>
          if activeHeadingIndex st \<noteq> None then Inr (v\<lparr>vstate := st\<lparr>activeHeadingIndex := None\<rparr>\<rparr>)
          else Inr v
      | ClickPill item \<Rightarrow>
          if activeHeadingIndex st \<noteq> None \<and> item \<in> set (poolItems st)
             \<and> id_str item \<notin> itemsInSlots (slots st)
          then Inr (v\<lparr>selectedPill :=
                        (if map_option id_str (selectedPill v) = Some (id_str item) then None
                         else Some item)\<rparr>)
          else Inr v
      | ClickItem idx \<Rightarrow>
          (case activeHeadingIndex st of
             None \<Rightarrow> Inr v
           | Some a \<Rightarrow>
               if a < length (headings st) \<and> idx < length (slots st)
                  \<and> idx < length (items (headings st ! a))
               then (case drawnAsBlock (headings st ! a) (slots st) idx of
                       Inl e \<Rightarrow> Inl e
                     | Inr block \<Rightarrow>
                         (case slots st ! idx of
                            None \<Rightarrow> Inr v
                          | Some itemInSlot \<Rightarrow>
                              if \<not> block \<and> \<not> (idx \<in> prefilledIndices st \<or> isStatic itemInSlot)
                              then Inr (v\<lparr>vstate := st\<lparr>slots := (slots st)[idx := None]\<rparr>\<rparr>)
                              else Inr v))
               else Inr v)
      | ClickDropZone idx \<Rightarrow>
          (case activeHeadingIndex st of
             None \<Rightarrow> Inr v
           | Some a \<Rightarrow>
               if a < length (headings st) \<and> idx < length (slots st)
                  \<and> idx < length (items (headings st ! a))
               then (case drawnAsBlock (headings st ! a) (slots st) idx of
                       Inl e \<Rightarrow> Inl e
                     | Inr block \<Rightarrow>
                         (case (slots st ! idx, selectedPill v) of
                            (None, Some pill) \<Rightarrow>
                              if \<not> block
                              then checkWinCondition a
                                     (v\<lparr>vstate := st\<lparr>slots := (slots st)[idx := Some pill]\<rparr>,
                                        selectedPill := None\<rparr>)
                              else Inr v
                          | _ \<Rightarrow> Inr v))
               else Inr v)
      | TimerFires \<Rightarrow>
          if pendingTimers v > 0 then Inr (winTimerFires v) else Inr v)"

fun run :: "Event list \<Rightarrow> View \<Rightarrow> error + View" where
  "run [] v = Inr v"
| "run (ev # evs) v = (case handleEvent ev v of Inl e \<Rightarrow> Inl e | Inr v' \<Rightarrow> run evs v')"

text \<open>The view after \<^verbatim>\<open>setState\<close> has received the parsed document.\<close>

definition initialView :: "GameState \<Rightarrow> View" where
  "initialView st = \<lparr>vstate = st, selectedPill = None, pendingTimers = 0\<rparr>"

text \<open>
  Two lists of groups with the same titles and the same fragments, position by position:
  they differ at most in the \<open>isRestored\<close> flags.
\<close>

definition same_document :: "GameHeading list \<Rightarrow> GameHeading list \<Rightarrow> bool" where
  "same_document hs hs' \<longleftrightarrow> map title hs' = map title hs \<and> map items hs' = map items hs"

section \<open>Properties of the strings the parser builds\<close>

lemma digit_char_code:
  assumes "d < 10"
  shows "of_char (digit_char d) = 48 + d"
proof -
  from assms
  have "d = 0 \<or> d = 1 \<or> d = 2 \<or> d = 3 \<or> d = 4 \<or> d = 5 \<or> d = 6 \<or> d = 7 \<or> d = 8 \<or> d = 9"
    by arith
  then show ?thesis by (elim disjE) (simp_all add: digit_char_def)
qed


text \<open>Reading a decimal numeral back.\<close>

definition nat_of_string :: "string \<Rightarrow> nat" where
  "nat_of_string s = foldl (\<lambda>a c. 10 * a + (of_char c - 48)) 0 s"

lemma nat_of_string_of_nat: "nat_of_string (string_of_nat n) = n"
proof (induction n rule: string_of_nat.induct)
  case (1 n)
  show ?case
  proof (cases "n < 10")
    case True
    then show ?thesis
      by (subst string_of_nat.simps) (simp add: nat_of_string_def digit_char_code)
  next
    case False
    have d: "of_char (digit_char (n mod 10)) = 48 + n mod 10"
      by (rule digit_char_code) simp
    from False "1.IH" have "nat_of_string (string_of_nat (n div 10)) = n div 10" by simp
    with False d show ?thesis
      by (subst string_of_nat.simps) (simp add: nat_of_string_def)
  qed
qed

lemma string_of_nat_inj: "string_of_nat m = string_of_nat n \<Longrightarrow> m = n"
  by (metis nat_of_string_of_nat)









text \<open>The two tests for an unordered item agree: the marker is a single bullet.\<close>

lemma isUnordered_listMatch:
  "isUnordered txt \<longleftrightarrow> (\<exists>c. is_bullet c \<and> listMatch txt = Some [c])"
proof (cases "dropWhile is_ws txt")
  case Nil
  show ?thesis unfolding isUnordered_def listMatch_def Nil by simp
next
  case (Cons c r)
  show ?thesis
  proof (cases "is_bullet c")
    case True
    then show ?thesis unfolding isUnordered_def listMatch_def Cons by auto
  next
    case False
    have "[b] \<noteq> ds @ ''.''" if "is_bullet b" for b ds
    proof (cases ds)
      case Nil
      with that show ?thesis by (auto simp: is_bullet_def)
    next
      case (Cons d ds')
      then show ?thesis by simp
    qed
    with False show ?thesis
      unfolding isUnordered_def listMatch_def Cons by (auto simp: Let_def)
  qed
qed

section \<open>Invariants of the line pass\<close>

text \<open>
  What \<^verbatim>\<open>pushItem\<close> establishes for the item at position \<open>i\<close> of the group titled
  \<open>ttl\<close>: the recorded origin, the shape of the id and the fields derived from the text.
\<close>

definition item_wf :: "rndsrc \<Rightarrow> string \<Rightarrow> nat \<Rightarrow> GameItem \<Rightarrow> bool" where
  "item_wf rnd ttl i f \<longleftrightarrow>
     originalHeading f = ttl \<and> originalIndex f = i
     \<and> (\<exists>k. id_str f = ttl @ ''-'' @ string_of_nat i @ ''-'' @ random36 rnd k 5)
     \<and> indentation f = indent_width (text_str f)
     \<and> listMarker f = listMatch (text_str f)
     \<and> isListItem f = (listMatch (text_str f) \<noteq> None)"

definition heading_wf :: "rndsrc \<Rightarrow> GameHeading \<Rightarrow> bool" where
  "heading_wf rnd h \<longleftrightarrow> (\<forall>i<length (items h). item_wf rnd (title h) i (items h ! i))"

definition unflexed :: "GameHeading \<Rightarrow> bool" where
  "unflexed h \<longleftrightarrow> (\<forall>f\<in>set (items h). flexGroupId f = None)"

definition pstate_inv :: "rndsrc \<Rightarrow> PState \<Rightarrow> bool" where
  "pstate_inv rnd st \<longleftrightarrow>
     (\<forall>h\<in>set (p_headings st). heading_wf rnd h \<and> unflexed h)
     \<and> heading_wf rnd (p_current st) \<and> unflexed (p_current st)"

lemma pushItem_title [simp]: "title (pushItem rnd k h txt s sh b) = title h"
  by (simp add: pushItem_def)

lemma pushItem_isRestored [simp]: "isRestored (pushItem rnd k h txt s sh b) = isRestored h"
  by (simp add: pushItem_def)

lemma pushItem_length [simp]:
  "length (items (pushItem rnd k h txt s sh b)) = Suc (length (items h))"
  by (simp add: pushItem_def)

lemma pushItem_old:
  "i < length (items h) \<Longrightarrow> items (pushItem rnd k h txt s sh b) ! i = items h ! i"
  by (simp add: pushItem_def nth_append)

lemma pushItem_new:
  "items (pushItem rnd k h txt s sh b) ! length (items h) =
     \<lparr>id_str = title h @ ''-'' @ string_of_nat (length (items h)) @ ''-'' @ random36 rnd k 5,
      text_str = txt, originalHeading = title h, originalIndex = length (items h),
      indentation = indent_width txt, isListItem = (listMatch txt \<noteq> None),
      listMarker = listMatch txt, isStatic = s, isSubHeading = sh, blockId = b,
      flexGroupId = None\<rparr>"
  by (simp add: pushItem_def)

lemma pushItem_wf:
  assumes "heading_wf rnd h"
  shows "heading_wf rnd (pushItem rnd k h txt s sh b)"
  unfolding heading_wf_def
proof (intro allI impI)
  fix i
  assume "i < length (items (pushItem rnd k h txt s sh b))"
  then consider "i < length (items h)" | "i = length (items h)" by fastforce
  then show "item_wf rnd (title (pushItem rnd k h txt s sh b)) i
               (items (pushItem rnd k h txt s sh b) ! i)"
  proof cases
    case 1
    with assms show ?thesis by (simp add: pushItem_old heading_wf_def)
  next
    case 2
    have "\<exists>k'. title h @ ''-'' @ string_of_nat (length (items h)) @ ''-'' @ random36 rnd k 5
            = title h @ ''-'' @ string_of_nat (length (items h)) @ ''-'' @ random36 rnd k' 5"
      by blast
    with 2 show ?thesis by (simp add: pushItem_new item_wf_def)
  qed
qed

lemma pushItem_unflexed:
  assumes "unflexed h"
  shows "unflexed (pushItem rnd k h txt s sh b)"
  using assms by (auto simp: unflexed_def pushItem_def)

lemma push_inv:
  assumes "pstate_inv rnd st"
  shows "pstate_inv rnd (push rnd st txt s sh b)"
  using assms by (simp add: pstate_inv_def push_def pushItem_wf pushItem_unflexed)

lemma push_headings [simp]: "p_headings (push rnd st txt s sh b) = p_headings st"
  by (simp add: push_def)

lemma push_title [simp]: "title (p_current (push rnd st txt s sh b)) = title (p_current st)"
  by (simp add: push_def)

lemma table_rows_inv:
  assumes "pstate_inv rnd st"
  shows "pstate_inv rnd (snd (table_rows rnd lines bId i st))"
  using assms
proof (induction rnd lines bId i st rule: table_rows.induct)
  case (1 rnd lines bId i st)
  show ?case
  proof (cases "i < length lines \<and> startsWith (trim (lines ! i)) ''|''")
    case True
    with 1 show ?thesis by (subst table_rows.simps) (simp add: push_inv)
  next
    case False
    with 1 show ?thesis by (subst table_rows.simps) auto
  qed
qed

lemma callout_rows_inv:
  assumes "pstate_inv rnd st"
  shows "pstate_inv rnd (snd (callout_rows rnd lines bId i st))"
  using assms
proof (induction rnd lines bId i st rule: callout_rows.induct)
  case (1 rnd lines bId i st)
  show ?case
  proof (cases "i < length lines \<and> startsWith (trim (lines ! i)) ''>''")
    case True
    with 1 show ?thesis by (subst callout_rows.simps) (simp add: push_inv)
  next
    case False
    with 1 show ?thesis by (subst callout_rows.simps) auto
  qed
qed

lemma table_rows_headings [simp]:
  "p_headings (snd (table_rows rnd lines bId i st)) = p_headings st"
proof (induction rnd lines bId i st rule: table_rows.induct)
  case (1 rnd lines bId i st)
  show ?case
  proof (cases "i < length lines \<and> startsWith (trim (lines ! i)) ''|''")
    case True
    with 1 show ?thesis by (subst table_rows.simps) simp
  next
    case False
    then show ?thesis by (subst table_rows.simps) auto
  qed
qed

lemma table_rows_title [simp]:
  "title (p_current (snd (table_rows rnd lines bId i st))) = title (p_current st)"
proof (induction rnd lines bId i st rule: table_rows.induct)
  case (1 rnd lines bId i st)
  show ?case
  proof (cases "i < length lines \<and> startsWith (trim (lines ! i)) ''|''")
    case True
    with 1 show ?thesis by (subst table_rows.simps) simp
  next
    case False
    then show ?thesis by (subst table_rows.simps) auto
  qed
qed

lemma callout_rows_headings [simp]:
  "p_headings (snd (callout_rows rnd lines bId i st)) = p_headings st"
proof (induction rnd lines bId i st rule: callout_rows.induct)
  case (1 rnd lines bId i st)
  show ?case
  proof (cases "i < length lines \<and> startsWith (trim (lines ! i)) ''>''")
    case True
    with 1 show ?thesis by (subst callout_rows.simps) simp
  next
    case False
    then show ?thesis by (subst callout_rows.simps) auto
  qed
qed

lemma callout_rows_title [simp]:
  "title (p_current (snd (callout_rows rnd lines bId i st))) = title (p_current st)"
proof (induction rnd lines bId i st rule: callout_rows.induct)
  case (1 rnd lines bId i st)
  show ?case
  proof (cases "i < length lines \<and> startsWith (trim (lines ! i)) ''>''")
    case True
    with 1 show ?thesis by (subst callout_rows.simps) simp
  next
    case False
    then show ?thesis by (subst callout_rows.simps) auto
  qed
qed

lemma parse_step_inv:
  assumes "pstate_inv rnd st" and "parse_step rnd lines i st = Inr (i', st')"
  shows "pstate_inv rnd st'"
proof (cases rule: parse_step_cases [of lines i rnd st])
  case blank
  with assms show ?thesis by simp
next
  case (heading level ttl)
  with assms show ?thesis
    by (auto simp: pstate_inv_def heading_wf_def unflexed_def split: if_splits)
next
  case (subheading level ttl)
  with assms show ?thesis by (auto simp: push_inv)
next
  case table
  from table(6) assms(2)
  have "st' = snd (table_rows rnd lines (''table-'' @ string_of_nat i) (i + 2)
               (push rnd (push rnd st (lines ! i) True False (Some (''table-'' @ string_of_nat i)))
                  (lines ! Suc i) True False (Some (''table-'' @ string_of_nat i))))"
    by (metis Inr_inject snd_conv)
  with assms(1) show ?thesis by (simp add: table_rows_inv push_inv)
next
  case callout
  from callout(5) assms(2)
  have "st' = snd (callout_rows rnd lines (''callout-'' @ string_of_nat i) (Suc i)
               (push rnd st (lines ! i) True False (Some (''callout-'' @ string_of_nat i))))"
    by (metis Inr_inject snd_conv)
  with assms(1) show ?thesis by (simp add: callout_rows_inv push_inv)
next
  case plain
  with assms show ?thesis by (auto simp: push_inv)
qed

text \<open>No iteration of the loop throws, so the loop returns a state.\<close>

lemma parse_step_returns: "\<exists>r. parse_step rnd lines i st = Inr r"
  by (cases rule: parse_step_cases [of lines i rnd st]) blast+

lemma parse_loop_returns: "\<exists>st'. parse_loop rnd lines i st = Inr st'"
proof (induction rnd lines i st rule: parse_loop.induct)
  case (1 rnd lines i st)
  show ?case
  proof (cases "i < length lines")
    case True
    obtain i' st1 where step: "parse_step rnd lines i st = Inr (i', st1)"
      using parse_step_returns [of rnd lines i st] by fastforce
    with True "1.IH" obtain st' where "parse_loop rnd lines i' st1 = Inr st'" by blast
    with True step show ?thesis by (subst parse_loop.simps) simp
  next
    case False
    then show ?thesis by (subst parse_loop.simps) simp
  qed
qed

text \<open>
  Induction along the loop: a property of the position and the state that holds at the
  start and that every iteration keeps holds, at a position past the last line, for the
  state the loop returns.
\<close>

lemma parse_loop_invariant:
  assumes "parse_loop rnd lines i st = Inr st'"
    and "I i st"
    and "\<And>j s j' s'. I j s \<Longrightarrow> j < length lines \<Longrightarrow> parse_step rnd lines j s = Inr (j', s')
            \<Longrightarrow> I j' s'"
  shows "\<exists>j. length lines \<le> j \<and> I j st'"
  using assms
proof (induction rnd lines i st rule: parse_loop.induct)
  case (1 rnd lines i st)
  show ?case
  proof (cases "i < length lines")
    case True
    obtain i' st1 where step: "parse_step rnd lines i st = Inr (i', st1)"
      using parse_step_returns [of rnd lines i st] by fastforce
    from True step "1.prems"(1) have loop: "parse_loop rnd lines i' st1 = Inr st'"
      by (subst (asm) parse_loop.simps) simp
    have next_I: "I i' st1" using "1.prems"(2) True step by (rule "1.prems"(3))
    show ?thesis
      by (rule "1.IH" [OF True step refl loop next_I]) (rule "1.prems"(3))
  next
    case False
    with "1.prems" have "st' = st" by (subst (asm) parse_loop.simps) simp
    with False "1.prems"(2) show ?thesis by (intro exI [of _ i]) simp
  qed
qed

lemma parse_loop_inv:
  assumes "parse_loop rnd lines i st = Inr st'" and "pstate_inv rnd st"
  shows "pstate_inv rnd st'"
proof -
  have "\<exists>j. length lines \<le> j \<and> pstate_inv rnd st'"
    using assms(1)
  proof (rule parse_loop_invariant [where I = "\<lambda>j s. pstate_inv rnd s"])
    show "pstate_inv rnd st" by (rule assms(2))
  next
    fix j s j' s'
    assume "pstate_inv rnd s" "parse_step rnd lines j s = Inr (j', s')"
    then show "pstate_inv rnd s'" by (rule parse_step_inv)
  qed
  then show ?thesis by blast
qed

lemma parse_init_inv: "pstate_inv rnd parse_init"
  by (simp add: pstate_inv_def parse_init_def heading_wf_def unflexed_def)

section \<open>Invariants of the flexible-group pass\<close>

text \<open>Two items that differ at most in their \<open>flexGroupId\<close>.\<close>

definition same_but_flex :: "GameItem \<Rightarrow> GameItem \<Rightarrow> bool" where
  "same_but_flex f g \<longleftrightarrow> g\<lparr>flexGroupId := None\<rparr> = f\<lparr>flexGroupId := None\<rparr>"

lemma same_but_flex_refl [simp]: "same_but_flex f f"
  by (simp add: same_but_flex_def)

lemma same_but_flex_update [simp]: "same_but_flex f (f\<lparr>flexGroupId := x\<rparr>)"
  by (simp add: same_but_flex_def)

lemma same_but_flex_fields:
  assumes "same_but_flex f g"
  shows "id_str g = id_str f" and "text_str g = text_str f"
    and "originalHeading g = originalHeading f" and "originalIndex g = originalIndex f"
    and "indentation g = indentation f" and "isListItem g = isListItem f"
    and "listMarker g = listMarker f" and "isStatic g = isStatic f"
    and "isSubHeading g = isSubHeading f" and "blockId g = blockId f"
  using assms by (cases f; cases g; simp add: same_but_flex_def)+

lemma item_wf_same:
  assumes "same_but_flex f g" and "item_wf rnd ttl i f"
  shows "item_wf rnd ttl i g"
  using assms(2) by (simp add: item_wf_def same_but_flex_fields [OF assms(1)])

text \<open>The shape of a flexible-group id of the group titled \<open>ttl\<close>.\<close>

definition flex_shape :: "rndsrc \<Rightarrow> string \<Rightarrow> string \<Rightarrow> bool" where
  "flex_shape rnd ttl s \<longleftrightarrow>
     (\<exists>j k. s = ''flex-'' @ ttl @ ''-'' @ string_of_nat j @ ''-'' @ random36 rnd k 3)"

text \<open>
  The condition under which the pass assigns an id to the item at position \<open>j\<close>: it is an
  unordered list item, neither static nor a sub-heading, and the next item of the group, if
  there is one, is not indented more.
\<close>

definition flex_cond :: "GameItem list \<Rightarrow> nat \<Rightarrow> bool" where
  "flex_cond its j \<longleftrightarrow>
     isUnordered (text_str (its ! j)) \<and> \<not> isStatic (its ! j) \<and> \<not> isSubHeading (its ! j)
     \<and> \<not> (Suc j < length its \<and> indentation (its ! Suc j) > indentation (its ! j))"

lemma flex_step_skip:
  assumes "\<not> flex_cond (fx_items fs) j"
  shows "fx_items (flex_step rnd ttl j fs) = fx_items fs"
    and "currentFlexGroupId (flex_step rnd ttl j fs) = None"
  using assms by (auto simp: flex_step_def Let_def flex_cond_def)

lemma flex_step_assign:
  assumes "flex_cond (fx_items fs) j"
  shows "\<exists>g. fx_items (flex_step rnd ttl j fs)
               = (fx_items fs)[j := (fx_items fs ! j)\<lparr>flexGroupId := Some g\<rparr>]
            \<and> currentFlexGroupId (flex_step rnd ttl j fs) = Some g
            \<and> (currentFlexGroupId fs = Some g
                \<or> g = ''flex-'' @ ttl @ ''-'' @ string_of_nat j @ ''-'' @ random36 rnd (fx_rand fs) 3)"
proof -
  let ?ind = "int (indentation (fx_items fs ! j))"
  let ?fresh = "currentFlexGroupId fs = None
                  \<or> snd (hd (pop_parents (parentStack fs) ?ind)) \<noteq> lastParentIdx fs
                  \<or> ?ind \<noteq> lastIndent fs"
  show ?thesis
  proof (cases ?fresh)
    case True
    with assms show ?thesis
      by (simp add: flex_step_def Let_def flex_cond_def)
  next
    case False
    then obtain g where "currentFlexGroupId fs = Some g" by auto
    with False assms show ?thesis
      by (simp add: flex_step_def Let_def flex_cond_def)
  qed
qed

definition flex_inv :: "rndsrc \<Rightarrow> string \<Rightarrow> GameItem list \<Rightarrow> nat \<Rightarrow> FlexState \<Rightarrow> bool" where
  "flex_inv rnd ttl its0 n fs \<longleftrightarrow>
     length (fx_items fs) = length its0
     \<and> (\<forall>i<length its0. same_but_flex (its0 ! i) (fx_items fs ! i))
     \<and> (\<forall>i<length its0. n \<le> i \<longrightarrow> fx_items fs ! i = its0 ! i)
     \<and> (\<forall>i<length its0. i < n \<longrightarrow> flexGroupId (fx_items fs ! i) \<noteq> None \<longrightarrow>
            flex_cond its0 i
            \<and> (\<exists>s. flexGroupId (fx_items fs ! i) = Some s \<and> flex_shape rnd ttl s))
     \<and> (\<forall>s. currentFlexGroupId fs = Some s \<longrightarrow> flex_shape rnd ttl s)"

lemma flex_cond_same:
  assumes "length its = length its0"
    and "\<forall>i<length its0. same_but_flex (its0 ! i) (its ! i)"
    and "j < length its0"
  shows "flex_cond its j \<longleftrightarrow> flex_cond its0 j"
proof -
  have a: "same_but_flex (its0 ! j) (its ! j)" using assms by simp
  have "Suc j < length its0 \<Longrightarrow> indentation (its ! Suc j) = indentation (its0 ! Suc j)"
    using assms(2) same_but_flex_fields(5) by blast
  then show ?thesis
    using assms(1) by (auto simp: flex_cond_def same_but_flex_fields [OF a])
qed

lemma flex_inv_step:
  assumes inv: "flex_inv rnd ttl its0 n fs" and n: "n < length its0"
    and un: "\<forall>f\<in>set its0. flexGroupId f = None"
  shows "flex_inv rnd ttl its0 (Suc n) (flex_step rnd ttl n fs)"
proof -
  from inv have len: "length (fx_items fs) = length its0"
    and same: "\<forall>i<length its0. same_but_flex (its0 ! i) (fx_items fs ! i)"
    and rest: "\<forall>i<length its0. n \<le> i \<longrightarrow> fx_items fs ! i = its0 ! i"
    and fin: "\<forall>i<length its0. i < n \<longrightarrow> flexGroupId (fx_items fs ! i) \<noteq> None \<longrightarrow>
                 flex_cond its0 i
                 \<and> (\<exists>s. flexGroupId (fx_items fs ! i) = Some s \<and> flex_shape rnd ttl s)"
    and cur: "\<forall>s. currentFlexGroupId fs = Some s \<longrightarrow> flex_shape rnd ttl s"
    by (simp_all add: flex_inv_def)
  have cond: "flex_cond (fx_items fs) n \<longleftrightarrow> flex_cond its0 n"
    using len same n by (rule flex_cond_same)
  have at_n: "fx_items fs ! n = its0 ! n" using rest n by simp
  have none_n: "flexGroupId (its0 ! n) = None" using un n by simp
  show ?thesis
  proof (cases "flex_cond (fx_items fs) n")
    case False
    note skip = flex_step_skip [OF False, of rnd ttl]
    have "\<forall>i<length its0. i < Suc n \<longrightarrow> flexGroupId (fx_items fs ! i) \<noteq> None \<longrightarrow>
            flex_cond its0 i
            \<and> (\<exists>s. flexGroupId (fx_items fs ! i) = Some s \<and> flex_shape rnd ttl s)"
      using fin at_n none_n by (auto simp: less_Suc_eq)
    with len same rest show ?thesis
      by (simp add: flex_inv_def skip)
  next
    case True
    from flex_step_assign [OF True, of rnd ttl]
    obtain g where items': "fx_items (flex_step rnd ttl n fs)
                              = (fx_items fs)[n := (fx_items fs ! n)\<lparr>flexGroupId := Some g\<rparr>]"
      and cur': "currentFlexGroupId (flex_step rnd ttl n fs) = Some g"
      and g: "currentFlexGroupId fs = Some g
              \<or> g = ''flex-'' @ ttl @ ''-'' @ string_of_nat n @ ''-'' @ random36 rnd (fx_rand fs) 3"
      by blast
    have shape: "flex_shape rnd ttl g"
      using g cur by (auto simp: flex_shape_def)
    have 1: "length (fx_items (flex_step rnd ttl n fs)) = length its0"
      using len by (simp add: items')
    have 2: "\<forall>i<length its0. same_but_flex (its0 ! i) (fx_items (flex_step rnd ttl n fs) ! i)"
      using same len at_n n by (auto simp: items' nth_list_update)
    have 3: "\<forall>i<length its0. Suc n \<le> i \<longrightarrow> fx_items (flex_step rnd ttl n fs) ! i = its0 ! i"
      using rest len n by (auto simp: items' nth_list_update)
    have 4: "\<forall>i<length its0. i < Suc n \<longrightarrow>
               flexGroupId (fx_items (flex_step rnd ttl n fs) ! i) \<noteq> None \<longrightarrow>
               flex_cond its0 i
               \<and> (\<exists>s. flexGroupId (fx_items (flex_step rnd ttl n fs) ! i) = Some s
                      \<and> flex_shape rnd ttl s)"
    proof (intro allI impI)
      fix i
      assume i: "i < length its0" "i < Suc n"
        and some: "flexGroupId (fx_items (flex_step rnd ttl n fs) ! i) \<noteq> None"
      show "flex_cond its0 i
            \<and> (\<exists>s. flexGroupId (fx_items (flex_step rnd ttl n fs) ! i) = Some s
                   \<and> flex_shape rnd ttl s)"
      proof (cases "i = n")
        case True
        with True shape cond \<open>flex_cond (fx_items fs) n\<close> len n show ?thesis
          by (simp add: items')
      next
        case False
        with i have "i < n" by simp
        moreover from False have "fx_items (flex_step rnd ttl n fs) ! i = fx_items fs ! i"
          by (simp add: items')
        ultimately show ?thesis using fin i(1) some by simp
      qed
    qed
    have 5: "\<forall>s. currentFlexGroupId (flex_step rnd ttl n fs) = Some s \<longrightarrow> flex_shape rnd ttl s"
      using cur' shape by simp
    from 1 2 3 4 5 show ?thesis unfolding flex_inv_def by blast
  qed
qed

lemma flex_inv_fold:
  assumes un: "\<forall>f\<in>set its0. flexGroupId f = None" and "n \<le> length its0"
  shows "flex_inv rnd ttl its0 n (fold (flex_step rnd ttl) [0..<n] (flex_init its0 k))"
  using assms(2)
proof (induction n)
  case 0
  show ?case by (simp add: flex_inv_def flex_init_def)
next
  case (Suc n)
  then have "flex_inv rnd ttl its0 n (fold (flex_step rnd ttl) [0..<n] (flex_init its0 k))"
    and "n < length its0"
    by simp_all
  then have "flex_inv rnd ttl its0 (Suc n)
               (flex_step rnd ttl n (fold (flex_step rnd ttl) [0..<n] (flex_init its0 k)))"
    using un by (rule flex_inv_step)
  then show ?case by simp
qed

text \<open>What holds for a group of the parsed document.\<close>

definition heading_ok :: "rndsrc \<Rightarrow> GameHeading \<Rightarrow> bool" where
  "heading_ok rnd h \<longleftrightarrow>
     heading_wf rnd h
     \<and> (\<forall>i<length (items h). flexGroupId (items h ! i) \<noteq> None \<longrightarrow>
           flex_cond (items h) i
           \<and> (\<exists>s. flexGroupId (items h ! i) = Some s \<and> flex_shape rnd (title h) s))"

lemma flex_heading_props:
  assumes wf: "heading_wf rnd h" and un: "unflexed h"
  shows "title (fst (flex_heading rnd k h)) = title h"
    and "isRestored (fst (flex_heading rnd k h)) = isRestored h"
    and "length (items (fst (flex_heading rnd k h))) = length (items h)"
    and "\<forall>i<length (items h). same_but_flex (items h ! i) (items (fst (flex_heading rnd k h)) ! i)"
    and "heading_ok rnd (fst (flex_heading rnd k h))"
proof -
  let ?fs = "fold (flex_step rnd (title h)) [0..<length (items h)] (flex_init (items h) k)"
  have h': "fst (flex_heading rnd k h) = h\<lparr>items := fx_items ?fs\<rparr>"
    by (simp add: flex_heading_def Let_def)
  have "flex_inv rnd (title h) (items h) (length (items h)) ?fs"
    by (rule flex_inv_fold) (use un in \<open>simp_all add: unflexed_def\<close>)
  then have len: "length (fx_items ?fs) = length (items h)"
    and same: "\<forall>i<length (items h). same_but_flex (items h ! i) (fx_items ?fs ! i)"
    and fin: "\<forall>i<length (items h). flexGroupId (fx_items ?fs ! i) \<noteq> None \<longrightarrow>
                 flex_cond (items h) i
                 \<and> (\<exists>s. flexGroupId (fx_items ?fs ! i) = Some s \<and> flex_shape rnd (title h) s)"
    by (simp_all add: flex_inv_def)
  show "title (fst (flex_heading rnd k h)) = title h"
    and "isRestored (fst (flex_heading rnd k h)) = isRestored h"
    by (simp_all add: h')
  show "length (items (fst (flex_heading rnd k h))) = length (items h)"
    by (simp add: h' len)
  show "\<forall>i<length (items h). same_but_flex (items h ! i) (items (fst (flex_heading rnd k h)) ! i)"
    by (simp add: h' same)
  have wf': "heading_wf rnd (h\<lparr>items := fx_items ?fs\<rparr>)"
    using wf same len by (auto simp: heading_wf_def intro: item_wf_same)
  have "\<forall>i<length (items h). flex_cond (fx_items ?fs) i \<longleftrightarrow> flex_cond (items h) i"
    using flex_cond_same [OF len same] by blast
  with fin have "\<forall>i<length (items h). flexGroupId (fx_items ?fs ! i) \<noteq> None \<longrightarrow>
                    flex_cond (fx_items ?fs) i
                    \<and> (\<exists>s. flexGroupId (fx_items ?fs ! i) = Some s \<and> flex_shape rnd (title h) s)"
    by blast
  with wf' len show "heading_ok rnd (fst (flex_heading rnd k h))"
    by (simp add: h' heading_ok_def)
qed

lemma flex_all_length [simp]: "length (flex_all rnd k hs) = length hs"
  by (induction hs arbitrary: k) simp_all

lemma flex_all_nth:
  assumes "i < length hs"
  shows "\<exists>k'. flex_all rnd k hs ! i = fst (flex_heading rnd k' (hs ! i))"
  using assms
proof (induction hs arbitrary: k i)
  case Nil
  then show ?case by simp
next
  case (Cons h hs)
  show ?case
  proof (cases i)
    case 0
    then show ?thesis by auto
  next
    case (Suc i')
    with Cons.prems have "i' < length hs" by simp
    from Cons.IH [OF this, of "snd (flex_heading rnd k h)"] Suc show ?thesis by simp
  qed
qed

section \<open>The parsed document\<close>

lemma parse_returns: "\<exists>gs. parseMarkdownToGame rnd content fName fPath = Inr gs"
proof -
  obtain st where "parse_loop rnd (split_lines content) 0 parse_init = Inr st"
    using parse_loop_returns by blast
  then show ?thesis by (simp add: parseMarkdownToGame_def)
qed

lemma parse_result:
  assumes "parseMarkdownToGame rnd content fName fPath = Inr gs"
  obtains st where "parse_loop rnd (split_lines content) 0 parse_init = Inr st"
    and "headings gs = flex_all rnd (p_rand st) (p_headings st @ [p_current st])"
    and "pstate_inv rnd st"
    and "activeHeadingIndex gs = None" and "difficulty gs = Medium" and "slots gs = []"
proof -
  obtain st where loop: "parse_loop rnd (split_lines content) 0 parse_init = Inr st"
    using parse_loop_returns by blast
  with assms have gs: "gs = \<lparr>fileName = fName, filePath = fPath,
               headings = flex_all rnd (p_rand st) (p_headings st @ [p_current st]),
               activeHeadingIndex = None, difficulty = Medium,
               slots = [], prefilledIndices = {},
               poolHeightPercent = 30,
               poolItems = []\<rparr>"
    by (simp add: parseMarkdownToGame_def)
  have "pstate_inv rnd st" using loop parse_init_inv by (rule parse_loop_inv)
  with loop gs that show ?thesis by simp
qed

text \<open>
  Every group of the parsed document comes from a group of the line pass, with the same
  title and the same items up to their flexible-group ids, and is well formed.
\<close>

lemma parsed_heading:
  assumes "parseMarkdownToGame rnd content fName fPath = Inr gs" and "a < length (headings gs)"
  shows "heading_ok rnd (headings gs ! a)"
proof -
  from assms(1) obtain st
    where hs: "headings gs = flex_all rnd (p_rand st) (p_headings st @ [p_current st])"
      and inv: "pstate_inv rnd st"
    by (rule parse_result)
  let ?hs0 = "p_headings st @ [p_current st]"
  from assms(2) hs have a: "a < length ?hs0" by simp
  then obtain k' where "headings gs ! a = fst (flex_heading rnd k' (?hs0 ! a))"
    using flex_all_nth [of a ?hs0 rnd "p_rand st"] hs by auto
  moreover have "?hs0 ! a \<in> set ?hs0" using a by (rule nth_mem)
  then have "heading_wf rnd (?hs0 ! a)" and "unflexed (?hs0 ! a)"
    using inv by (auto simp: pstate_inv_def)
  ultimately show ?thesis by (simp add: flex_heading_props(5))
qed

lemma parsed_heading_mem:
  assumes "parseMarkdownToGame rnd content fName fPath = Inr gs" and "g \<in> set (headings gs)"
  shows "heading_ok rnd g"
proof -
  from assms(2) obtain a where "a < length (headings gs)" and "headings gs ! a = g"
    by (auto simp: in_set_conv_nth)
  with parsed_heading [OF assms(1)] show ?thesis by blast
qed

lemma flex_shape_nonempty: "flex_shape rnd ttl s \<Longrightarrow> s \<noteq> []"
  by (auto simp: flex_shape_def)

lemma heading_ok_truthy:
  assumes "heading_ok rnd g" and "i < length (items g)"
  shows "truthy (flexGroupId (items g ! i)) \<longleftrightarrow> flexGroupId (items g ! i) \<noteq> None"
proof (cases "flexGroupId (items g ! i)")
  case None
  then show ?thesis by (simp add: truthy_def)
next
  case (Some s)
  with assms have "flex_shape rnd (title g) s" by (auto simp: heading_ok_def)
  then have "s \<noteq> []" by (rule flex_shape_nonempty)
  with Some show ?thesis by (simp add: truthy_def)
qed

section \<open>The evaluator\<close>

lemma isSlotCorrect_in_range:
  assumes "i < length (items g)"
  shows "isSlotCorrect s i g =
           Inr (case s of
                  None \<Rightarrow> False
                | Some it \<Rightarrow>
                    (originalIndex it = i \<and> originalHeading it = title g)
                    \<or> (truthy (flexGroupId (items g ! i))
                        \<and> flexGroupId it = flexGroupId (items g ! i)))"
  using assms by (cases s) (auto simp: isSlotCorrect_def nth_opt_def)

lemma every_e_total:
  assumes "\<forall>x\<in>set xs. \<exists>b. p x = Inr b"
  shows "every_e p xs = Inr (\<forall>x\<in>set xs. p x = Inr True)"
  using assms
proof (induction xs)
  case Nil
  show ?case by simp
next
  case (Cons x xs)
  then obtain b where b: "p x = Inr b" by auto
  from Cons have "every_e p xs = Inr (\<forall>x\<in>set xs. p x = Inr True)" by simp
  with b show ?case by (cases b) auto
qed

lemma isPerfect_in_range:
  assumes "length sl \<le> length (items g)"
  shows "isPerfect g sl = Inr (\<forall>i<length sl. isSlotCorrect (sl ! i) i g = Inr True)"
proof -
  let ?p = "\<lambda>(idx, item). isSlotCorrect item idx g"
  have "\<forall>x\<in>set (enumerate 0 sl). \<exists>b. ?p x = Inr b"
    using assms by (auto simp: in_set_enumerate_eq isSlotCorrect_in_range)
  then have "every_e ?p (enumerate 0 sl) = Inr (\<forall>x\<in>set (enumerate 0 sl). ?p x = Inr True)"
    by (rule every_e_total)
  moreover have "(\<forall>x\<in>set (enumerate 0 sl). ?p x = Inr True)
                   \<longleftrightarrow> (\<forall>i<length sl. isSlotCorrect (sl ! i) i g = Inr True)"
  proof
    assume all: "\<forall>x\<in>set (enumerate 0 sl). ?p x = Inr True"
    show "\<forall>i<length sl. isSlotCorrect (sl ! i) i g = Inr True"
    proof (intro allI impI)
      fix i
      assume "i < length sl"
      then have "(i, sl ! i) \<in> set (enumerate 0 sl)" by (simp add: in_set_enumerate_eq)
      with all have "?p (i, sl ! i) = Inr True" by blast
      then show "isSlotCorrect (sl ! i) i g = Inr True" by simp
    qed
  next
    assume "\<forall>i<length sl. isSlotCorrect (sl ! i) i g = Inr True"
    then show "\<forall>x\<in>set (enumerate 0 sl). ?p x = Inr True"
      by (auto simp: in_set_enumerate_eq)
  qed
  ultimately show ?thesis by (simp add: isPerfect_def)
qed

section \<open>States of the game over a parsed document\<close>

lemma same_document_refl [simp]: "same_document hs hs"
  by (simp add: same_document_def)

lemma same_document_trans:
  "same_document hs hs' \<Longrightarrow> same_document hs' hs'' \<Longrightarrow> same_document hs hs''"
  by (simp add: same_document_def)

lemma same_document_length: "same_document hs hs' \<Longrightarrow> length hs' = length hs"
  by (auto simp: same_document_def dest: map_eq_imp_length_eq)

lemma same_document_nth:
  assumes "same_document hs hs'" and "a < length hs"
  shows "title (hs' ! a) = title (hs ! a)" and "items (hs' ! a) = items (hs ! a)"
proof -
  from assms have len: "a < length hs'" by (simp add: same_document_length)
  from assms(1) have "map title hs' ! a = map title hs ! a" and "map items hs' ! a = map items hs ! a"
    by (simp_all add: same_document_def)
  with assms(2) len show "title (hs' ! a) = title (hs ! a)" and "items (hs' ! a) = items (hs ! a)"
    by simp_all
qed

lemma map_update_same: "(map f hs)[a := f (hs ! a)] = map f hs"
  by (cases "a < length hs") (simp_all add: list_update_same_conv list_update_beyond)

lemma same_document_restore:
  "same_document hs (hs[a := (hs ! a)\<lparr>isRestored := True\<rparr>])"
  by (simp add: same_document_def map_update map_update_same)

lemma checkWinCondition_same_document:
  assumes "checkWinCondition a v = Inr v'"
  shows "same_document (headings (vstate v)) (headings (vstate v'))"
  using assms
  by (auto simp: checkWinCondition_def nth_opt_def same_document_restore
      split: if_splits sum.splits)

lemma startSession_headings:
  assumes "startSession rand shuffle index st = Inr st'"
  shows "headings st' = headings st"
  using assms by (auto simp: startSession_def nth_opt_def Let_def split: if_splits sum.splits)

lemma handleEvent_same_document:
  assumes "handleEvent ev v = Inr v'"
  shows "same_document (headings (vstate v)) (headings (vstate v'))"
proof (cases ev)
  case (OpenCard index rand shuffle)
  with assms show ?thesis
    by (auto simp: handleEvent_def Let_def startSession_headings split: if_splits sum.splits)
next
  case (ClickDropZone idx)
  with assms show ?thesis
    by (auto simp: handleEvent_def Let_def split: if_splits sum.splits option.splits
        dest!: checkWinCondition_same_document)
next
  case TimerFires
  with assms show ?thesis
    by (auto simp: handleEvent_def Let_def winTimerFires_def split: if_splits)
qed (use assms in \<open>auto simp: handleEvent_def Let_def split: if_splits sum.splits option.splits\<close>)

lemma run_same_document:
  assumes "run evs v = Inr v'"
  shows "same_document (headings (vstate v)) (headings (vstate v'))"
  using assms
proof (induction evs arbitrary: v)
  case Nil
  then show ?case by simp
next
  case (Cons ev evs)
  then obtain v1 where 1: "handleEvent ev v = Inr v1" and 2: "run evs v1 = Inr v'"
    by (auto split: sum.splits)
  from handleEvent_same_document [OF 1] Cons.IH [OF 2] show ?case
    by (rule same_document_trans)
qed

lemma heading_ok_cong:
  assumes "title h' = title h" and "items h' = items h" and "heading_ok rnd h"
  shows "heading_ok rnd h'"
  using assms(3) by (simp add: heading_ok_def heading_wf_def assms(1,2))

lemma same_document_heading_ok:
  assumes "parseMarkdownToGame rnd content fName fPath = Inr gs"
    and "same_document (headings gs) hs" and "a < length hs"
  shows "heading_ok rnd (hs ! a)"
proof -
  from assms(2,3) have a: "a < length (headings gs)" by (simp add: same_document_length)
  from same_document_nth [OF assms(2) a] parsed_heading [OF assms(1) a]
  show ?thesis by (rule heading_ok_cong)
qed

lemma heading_ok_origin:
  assumes "heading_ok rnd h" and "j < length (items h)"
  shows "originalIndex (items h ! j) = j" and "originalHeading (items h ! j) = title h"
  using assms by (simp_all add: heading_ok_def heading_wf_def item_wf_def)

lemma heading_ok_slot:
  assumes "heading_ok rnd g" and "i < length (items g)"
  shows "isSlotCorrect s i g =
           Inr (case s of
                  None \<Rightarrow> False
                | Some it \<Rightarrow>
                    (originalIndex it = i \<and> originalHeading it = title g)
                    \<or> (flexGroupId (items g ! i) \<noteq> None
                        \<and> flexGroupId it = flexGroupId (items g ! i)))"
  unfolding isSlotCorrect_in_range [OF assms(2)] heading_ok_truthy [OF assms] by (rule refl)

section \<open>Example documents\<close>

text \<open>A random source whose every suffix is \<^verbatim>\<open>abcde\<close> (or \<^verbatim>\<open>abc\<close>).\<close>

definition ex_rnd :: rndsrc where
  "ex_rnd k = [10, 11, 12, 13, 14]"

text \<open>
  Two groups of list items:
  \<^verbatim>\<open>"# A\n- x\n- y\n## B\n- z\n"\<close>.
\<close>

definition doc_lists :: string where
  "doc_lists = ''# A'' @ [CHR 0x0A] @ ''- x'' @ [CHR 0x0A] @ ''- y'' @ [CHR 0x0A]
                 @ ''## B'' @ [CHR 0x0A] @ ''- z'' @ [CHR 0x0A]"

definition item_x :: GameItem where
  "item_x = \<lparr>id_str = ''A-0-abcde'', text_str = ''- x'', originalHeading = ''A'',
              originalIndex = 0, indentation = 0, isListItem = True, listMarker = Some ''-'',
              isStatic = False, isSubHeading = False, blockId = None,
              flexGroupId = Some ''flex-A-0-abc''\<rparr>"

definition item_y :: GameItem where
  "item_y = \<lparr>id_str = ''A-1-abcde'', text_str = ''- y'', originalHeading = ''A'',
              originalIndex = 1, indentation = 0, isListItem = True, listMarker = Some ''-'',
              isStatic = False, isSubHeading = False, blockId = None,
              flexGroupId = Some ''flex-A-0-abc''\<rparr>"

definition item_z :: GameItem where
  "item_z = \<lparr>id_str = ''B-0-abcde'', text_str = ''- z'', originalHeading = ''B'',
              originalIndex = 0, indentation = 0, isListItem = True, listMarker = Some ''-'',
              isStatic = False, isSubHeading = False, blockId = None,
              flexGroupId = Some ''flex-B-0-abc''\<rparr>"

definition group_A :: GameHeading where
  "group_A = \<lparr>title = ''A'', items = [item_x, item_y], isRestored = False\<rparr>"

definition group_B :: GameHeading where
  "group_B = \<lparr>title = ''B'', items = [item_z], isRestored = False\<rparr>"

definition gs_lists :: GameState where
  "gs_lists = \<lparr>fileName = ''notes'', filePath = ''notes.md'', headings = [group_A, group_B],
                activeHeadingIndex = None, difficulty = Medium, slots = [],
                prefilledIndices = {}, poolHeightPercent = 30, poolItems = []\<rparr>"

text \<open>
  The list document after group \<open>B\<close> has been restored, and a session on group \<open>A\<close>
  whose two slots hold the two items in swapped order.
\<close>

definition gs_lists_won :: GameState where
  "gs_lists_won = gs_lists\<lparr>headings := [group_A, group_B\<lparr>isRestored := True\<rparr>]\<rparr>"

definition view_second :: View where
  "view_second =
     \<lparr>vstate = gs_lists_won\<lparr>activeHeadingIndex := Some 0, slots := [Some item_y, Some item_x]\<rparr>,
      selectedPill = None, pendingTimers = 0\<rparr>"

text \<open>
  A table:
  \<^verbatim>\<open>"| H |\n|---|\n| r1 |\n| r2 |\n"\<close>.
\<close>

definition doc_table :: string where
  "doc_table = ''| H |'' @ [CHR 0x0A] @ ''|---|'' @ [CHR 0x0A] @ ''| r1 |'' @ [CHR 0x0A]
                 @ ''| r2 |'' @ [CHR 0x0A]"

definition lines_table :: "string list" where
  "lines_table = [''| H |'', ''|---|'', ''| r1 |'', ''| r2 |'', []]"

definition table_item :: "nat \<Rightarrow> string \<Rightarrow> string \<Rightarrow> bool \<Rightarrow> GameItem" where
  "table_item i ident txt static =
     \<lparr>id_str = ident, text_str = txt, originalHeading = ''Introduction'',
      originalIndex = i, indentation = 0, isListItem = False, listMarker = None,
      isStatic = static, isSubHeading = False, blockId = Some ''table-0'',
      flexGroupId = None\<rparr>"

definition row_H :: GameItem where "row_H = table_item 0 ''Introduction-0-abcde'' ''| H |'' True"
definition row_S :: GameItem where "row_S = table_item 1 ''Introduction-1-abcde'' ''|---|'' True"
definition row_1 :: GameItem where "row_1 = table_item 2 ''Introduction-2-abcde'' ''| r1 |'' False"
definition row_2 :: GameItem where "row_2 = table_item 3 ''Introduction-3-abcde'' ''| r2 |'' False"

definition group_T :: GameHeading where
  "group_T = \<lparr>title = ''Introduction'', items = [row_H, row_S, row_1, row_2], isRestored = False\<rparr>"

definition gs_table :: GameState where
  "gs_table = \<lparr>fileName = ''notes'', filePath = ''notes.md'', headings = [group_T],
                activeHeadingIndex = None, difficulty = Medium, slots = [],
                prefilledIndices = {}, poolHeightPercent = 30, poolItems = []\<rparr>"

text \<open>
  Two groups with one title:
  \<^verbatim>\<open>"# A\nx\n# A\ny"\<close>.
\<close>

definition doc_dup :: string where
  "doc_dup = ''# A'' @ [CHR 0x0A] @ ''x'' @ [CHR 0x0A] @ ''# A'' @ [CHR 0x0A] @ ''y''"

definition plain_item :: "string \<Rightarrow> string \<Rightarrow> string \<Rightarrow> GameItem" where
  "plain_item ident txt ttl =
     \<lparr>id_str = ident, text_str = txt, originalHeading = ttl,
      originalIndex = 0, indentation = 0, isListItem = False, listMarker = None,
      isStatic = False, isSubHeading = False, blockId = None, flexGroupId = None\<rparr>"

definition dup_x :: GameItem where "dup_x = plain_item ''A-0-abcde'' ''x'' ''A''"
definition dup_y :: GameItem where "dup_y = plain_item ''A-0-abcde'' ''y'' ''A''"

definition gs_dup :: GameState where
  "gs_dup = \<lparr>fileName = ''notes'', filePath = ''notes.md'',
              headings = [\<lparr>title = ''A'', items = [dup_x], isRestored = False\<rparr>,
                          \<lparr>title = ''A'', items = [dup_y], isRestored = False\<rparr>],
              activeHeadingIndex = None, difficulty = Medium, slots = [],
              prefilledIndices = {}, poolHeightPercent = 30, poolItems = []\<rparr>"

text \<open>The view after the fragment of the second group has been put in slot 0 of the first.\<close>

definition view_dup_won :: View where
  "view_dup_won =
     \<lparr>vstate = gs_dup\<lparr>headings := [\<lparr>title = ''A'', items = [dup_x], isRestored = True\<rparr>,
                                    \<lparr>title = ''A'', items = [dup_y], isRestored = False\<rparr>],
                      activeHeadingIndex := Some 0, slots := [Some dup_y],
                      poolItems := [dup_x, dup_y, dup_y, dup_y]\<rparr>,
      selectedPill = None, pendingTimers = 1\<rparr>"

text \<open>
  A callout followed by a plain line:
  \<^verbatim>\<open>"> [!note] T\n> body\nafter"\<close>.
\<close>

definition doc_callout :: string where
  "doc_callout = ''> [!note] T'' @ [CHR 0x0A] @ ''> body'' @ [CHR 0x0A] @ ''after''"

definition lines_callout :: "string list" where
  "lines_callout = [''> [!note] T'', ''> body'', ''after'']"

definition intro_item :: "nat \<Rightarrow> string \<Rightarrow> string \<Rightarrow> bool \<Rightarrow> string option \<Rightarrow> GameItem" where
  "intro_item i ident txt static bId =
     \<lparr>id_str = ident, text_str = txt, originalHeading = ''Introduction'',
      originalIndex = i, indentation = 0, isListItem = False, listMarker = None,
      isStatic = static, isSubHeading = False, blockId = bId, flexGroupId = None\<rparr>"

definition note_H :: GameItem where
  "note_H = intro_item 0 ''Introduction-0-abcde'' ''> [!note] T'' True (Some ''callout-0'')"

definition note_1 :: GameItem where
  "note_1 = intro_item 1 ''Introduction-1-abcde'' ''> body'' False (Some ''callout-0'')"

definition note_after :: GameItem where
  "note_after = intro_item 2 ''Introduction-2-abcde'' ''after'' False None"

definition group_C :: GameHeading where
  "group_C = \<lparr>title = ''Introduction'', items = [note_H, note_1, note_after], isRestored = False\<rparr>"

definition gs_callout :: GameState where
  "gs_callout = \<lparr>fileName = ''notes'', filePath = ''notes.md'', headings = [group_C],
                  activeHeadingIndex = None, difficulty = Medium, slots = [],
                  prefilledIndices = {}, poolHeightPercent = 30, poolItems = []\<rparr>"

text \<open>A source of random numbers that are all 0.\<close>

definition zero_rand :: numsrc where
  "zero_rand k = 0"

text \<open>
  A line that starts with \<^verbatim>\<open>|\<close> and is followed by no separator row:
  \<^verbatim>\<open>"| a |\nplain"\<close>; and a document that ends with a heading: \<^verbatim>\<open>"x\n# T"\<close>.
\<close>

definition doc_pipe :: string where
  "doc_pipe = ''| a |'' @ [CHR 0x0A] @ ''plain''"

definition pipe_item :: GameItem where
  "pipe_item = intro_item 0 ''Introduction-0-abcde'' ''| a |'' False None"

definition gs_pipe :: GameState where
  "gs_pipe = \<lparr>fileName = ''notes'', filePath = ''notes.md'',
               headings = [\<lparr>title = ''Introduction'',
                            items = [pipe_item,
                                     intro_item 1 ''Introduction-1-abcde'' ''plain'' False None],
                            isRestored = False\<rparr>],
               activeHeadingIndex = None, difficulty = Medium, slots = [],
               prefilledIndices = {}, poolHeightPercent = 30, poolItems = []\<rparr>"

definition doc_last :: string where
  "doc_last = ''x'' @ [CHR 0x0A] @ ''# T''"

definition gs_last :: GameState where
  "gs_last = \<lparr>fileName = ''notes'', filePath = ''notes.md'',
               headings = [\<lparr>title = ''Introduction'',
                            items = [plain_item ''Introduction-0-abcde'' ''x'' ''Introduction''],
                            isRestored = False\<rparr>,
                           \<lparr>title = ''T'', items = [], isRestored = False\<rparr>],
               activeHeadingIndex = None, difficulty = Medium, slots = [],
               prefilledIndices = {}, poolHeightPercent = 30, poolItems = []\<rparr>"

text \<open>The list document with the difficulty set to easy, and a group of 90 one-line fragments.\<close>

definition gs_easy :: GameState where
  "gs_easy = gs_lists\<lparr>difficulty := Easy\<rparr>"

definition st_easy :: GameState where
  "st_easy = gs_easy\<lparr>activeHeadingIndex := Some 0, prefilledIndices := {0},
                      slots := [Some item_x, None], poolItems := [item_y, item_z]\<rparr>"

definition line_item :: "nat \<Rightarrow> GameItem" where
  "line_item i =
     \<lparr>id_str = ''A-'' @ string_of_nat i @ ''-abcde'', text_str = ''line'',
      originalHeading = ''A'', originalIndex = i, indentation = 0, isListItem = False,
      listMarker = None, isStatic = False, isSubHeading = False, blockId = None,
      flexGroupId = None\<rparr>"

definition group_90 :: GameHeading where
  "group_90 = \<lparr>title = ''A'', items = map line_item [0..<90], isRestored = False\<rparr>"

definition gs_90 :: GameState where
  "gs_90 = \<lparr>fileName = ''notes'', filePath = ''notes.md'', headings = [group_90],
             activeHeadingIndex = None, difficulty = Easy, slots = [],
             prefilledIndices = {}, poolHeightPercent = 30, poolItems = []\<rparr>"

text \<open>The number of prefilled slots of the session that a call returns.\<close>

definition prefilledCount :: "error + GameState \<Rightarrow> error + nat" where
  "prefilledCount r = map_sum id (card \<circ> prefilledIndices) r"

text \<open>The equations that evaluate the parser on a given text.\<close>

lemmas string_eval =
  trim_def startsWith_def is_ws_def is_line_term_def is_digit_def is_bullet_def
  headingMatch_def listMatch_def isUnordered_def indent_width_def separatorMatch_def
  m_seq_def m_opt_def m_char_def m_plus_def is_sep_char_def nextLine_def nth_opt_def
  string_of_nat.simps digit_char_def random36_def base36_char_def

lemmas parser_eval =
  parseMarkdownToGame_def parse_loop.simps parse_step_def parse_init_def
  table_rows.simps callout_rows.simps push_def pushItem_def
  flex_heading_def flex_init_def flex_step_def Let_def split_lines_def string_eval

lemma parse_doc_lists:
  "parseMarkdownToGame ex_rnd doc_lists ''notes'' ''notes.md'' = Inr gs_lists"
  by (simp add: parser_eval doc_lists_def ex_rnd_def gs_lists_def group_A_def group_B_def
      item_x_def item_y_def item_z_def
      cong: sum.case_cong_weak option.case_cong_weak prod.case_cong_weak)

lemma split_doc_table: "split_lines doc_table = lines_table"
  by (simp add: split_lines_def doc_table_def lines_table_def)

lemmas table_defs =
  lines_table_def gs_table_def group_T_def row_H_def row_S_def row_1_def row_2_def
  table_item_def

lemma parse_doc_table:
  "parseMarkdownToGame ex_rnd doc_table ''notes'' ''notes.md'' = Inr gs_table"
  by (simp add: parser_eval doc_table_def ex_rnd_def table_defs
      cong: sum.case_cong_weak option.case_cong_weak prod.case_cong_weak)

lemma parse_doc_dup:
  "parseMarkdownToGame ex_rnd doc_dup ''notes'' ''notes.md'' = Inr gs_dup"
  by (simp add: parser_eval doc_dup_def ex_rnd_def gs_dup_def dup_x_def dup_y_def plain_item_def
      cong: sum.case_cong_weak option.case_cong_weak prod.case_cong_weak)

text \<open>The equations that evaluate the choice of the intruders when every random number is 0.\<close>

lemma randomIndex_zero [simp]: "randomIndex zero_rand k n = 0"
  by (simp add: randomIndex_def random_number_def zero_rand_def fmul_def round_double_def)

lemmas intruders_eval =
  sessionIntruders_def otherHeadings_def enumerate_eq_zip drawn_def playableIndices_def
  DIFFICULTY_CONFIG_def nth_opt_def upt_rec_numeral numeral_3_eq_3

lemma intruders_lists: "sessionIntruders zero_rand gs_lists 0 = Inr [item_z, item_z, item_z]"
  by (simp add: intruders_eval gs_lists_def group_A_def group_B_def item_x_def item_y_def item_z_def)

lemma intruders_dup: "sessionIntruders zero_rand gs_dup 0 = Inr [dup_y, dup_y, dup_y]"
  by (simp add: intruders_eval gs_dup_def dup_x_def dup_y_def plain_item_def)

lemma split_doc_pipe: "split_lines doc_pipe = [''| a |'', ''plain'']"
  by (simp add: split_lines_def doc_pipe_def)

lemma parse_doc_pipe:
  "parseMarkdownToGame ex_rnd doc_pipe ''notes'' ''notes.md'' = Inr gs_pipe"
  by (simp add: parser_eval doc_pipe_def ex_rnd_def gs_pipe_def pipe_item_def intro_item_def
      cong: sum.case_cong_weak option.case_cong_weak prod.case_cong_weak)

lemmas callout_defs =
  lines_callout_def gs_callout_def group_C_def note_H_def note_1_def note_after_def intro_item_def

lemma split_doc_callout: "split_lines doc_callout = lines_callout"
  by (simp add: split_lines_def doc_callout_def lines_callout_def)

lemma parse_doc_callout:
  "parseMarkdownToGame ex_rnd doc_callout ''notes'' ''notes.md'' = Inr gs_callout"
  by (simp add: parser_eval doc_callout_def ex_rnd_def callout_defs
      cong: sum.case_cong_weak option.case_cong_weak prod.case_cong_weak)

lemma split_doc_last: "split_lines doc_last = [''x'', ''# T'']"
  by (simp add: split_lines_def doc_last_def)

lemma parse_doc_last:
  "parseMarkdownToGame ex_rnd doc_last ''notes'' ''notes.md'' = Inr gs_last"
  by (simp add: parser_eval doc_last_def ex_rnd_def gs_last_def plain_item_def
      cong: sum.case_cong_weak option.case_cong_weak prod.case_cong_weak)

lemma parse_empty:
  "parseMarkdownToGame rnd [] fName fPath =
     Inr \<lparr>fileName = fName, filePath = fPath,
          headings = [\<lparr>title = ''Introduction'', items = [], isRestored = False\<rparr>],
          activeHeadingIndex = None, difficulty = Medium, slots = [],
          prefilledIndices = {}, poolHeightPercent = 30, poolItems = []\<rparr>"
  by (simp add: parser_eval
      cong: sum.case_cong_weak option.case_cong_weak prod.case_cong_weak)

section \<open>The claims\<close>

text \<open>
  C1. For every group of a parsed document, every slot index \<open>i\<close> in range and every slot
  content \<open>s\<close>, \<open>isSlotCorrect s i g\<close> returns a truth value: false when the slot is
  empty; otherwise true exactly when the fragment in the slot has \<open>originalIndex = i\<close> and
  \<open>originalHeading\<close> equal to the group's title, or the group's fragment at \<open>i\<close> has a
  \<open>flexGroupId\<close> and the fragment in the slot has the same one.
\<close>

theorem isSlotCorrect_spec:
  assumes "parseMarkdownToGame rnd content fName fPath = Inr gs"
    and "g \<in> set (headings gs)" and "i < length (items g)"
  shows "isSlotCorrect s i g =
           Inr (case s of
                  None \<Rightarrow> False
                | Some it \<Rightarrow>
                    (originalIndex it = i \<and> originalHeading it = title g)
                    \<or> (flexGroupId (items g ! i) \<noteq> None
                        \<and> flexGroupId it = flexGroupId (items g ! i)))"
proof -
  have "heading_ok rnd g" using assms(1,2) by (rule parsed_heading_mem)
  then have t: "truthy (flexGroupId (items g ! i)) \<longleftrightarrow> flexGroupId (items g ! i) \<noteq> None"
    using assms(3) by (rule heading_ok_truthy)
  show ?thesis
    unfolding isSlotCorrect_in_range [OF assms(3)] t by (rule refl)
qed

theorem isSlotCorrect_spec_witness:
  "parseMarkdownToGame ex_rnd doc_lists ''notes'' ''notes.md'' = Inr gs_lists
   \<and> group_A \<in> set (headings gs_lists) \<and> 1 < length (items group_A)
   \<and> isSlotCorrect None 1 group_A = Inr False
   \<and> isSlotCorrect (Some item_y) 1 group_A = Inr True
   \<and> isSlotCorrect (Some item_x) 1 group_A = Inr True
   \<and> isSlotCorrect (Some item_z) 1 group_A = Inr False"
proof -
  have g: "group_A \<in> set (headings gs_lists)" by (simp add: gs_lists_def)
  have i: "1 < length (items group_A)" by (simp add: group_A_def)
  note spec = isSlotCorrect_spec [OF parse_doc_lists g i]
  have "isSlotCorrect None 1 group_A = Inr False"
    using spec [of None] by simp
  moreover have "isSlotCorrect (Some item_y) 1 group_A = Inr True"
    using spec [of "Some item_y"] by (simp add: group_A_def item_y_def)
  moreover have "isSlotCorrect (Some item_x) 1 group_A = Inr True"
    using spec [of "Some item_x"] by (simp add: group_A_def item_x_def item_y_def)
  moreover have "isSlotCorrect (Some item_z) 1 group_A = Inr False"
    using spec [of "Some item_z"] by (simp add: group_A_def item_z_def item_y_def)
  ultimately show ?thesis using parse_doc_lists g i by simp
qed

text \<open>
  C3. In a parsed document a fragment has a \<open>flexGroupId\<close> only if it is an unordered list
  item (its marker is \<^verbatim>\<open>-\<close>, \<^verbatim>\<open>*\<close> or \<^verbatim>\<open>+\<close>, not a number), is not static, is no
  sub-heading, and is a leaf: the fragment that follows it in its group, if any, is not
  indented more.
\<close>

theorem flexGroupId_sound:
  assumes "parseMarkdownToGame rnd content fName fPath = Inr gs"
    and "g \<in> set (headings gs)" and "j < length (items g)"
    and "flexGroupId (items g ! j) \<noteq> None"
  shows "isUnordered (text_str (items g ! j))
         \<and> isListItem (items g ! j)
         \<and> listMarker (items g ! j) \<in> {Some ''-'', Some ''*'', Some ''+''}
         \<and> \<not> isStatic (items g ! j)
         \<and> \<not> isSubHeading (items g ! j)
         \<and> \<not> (Suc j < length (items g)
               \<and> indentation (items g ! Suc j) > indentation (items g ! j))"
proof -
  have ok: "heading_ok rnd g" using assms(1,2) by (rule parsed_heading_mem)
  with assms(3,4) have cond: "flex_cond (items g) j" by (simp add: heading_ok_def)
  from ok assms(3) have wf: "item_wf rnd (title g) j (items g ! j)"
    by (simp add: heading_ok_def heading_wf_def)
  from cond have un: "isUnordered (text_str (items g ! j))" by (simp add: flex_cond_def)
  then obtain c where c: "is_bullet c" "listMatch (text_str (items g ! j)) = Some [c]"
    by (auto simp: isUnordered_listMatch)
  with wf have "isListItem (items g ! j)" and "listMarker (items g ! j) = Some [c]"
    by (simp_all add: item_wf_def)
  moreover from c(1) have "Some [c] \<in> {Some ''-'', Some ''*'', Some ''+''}"
    by (auto simp: is_bullet_def)
  ultimately show ?thesis using cond un by (simp add: flex_cond_def)
qed

theorem flexGroupId_sound_witness:
  "parseMarkdownToGame ex_rnd doc_lists ''notes'' ''notes.md'' = Inr gs_lists
   \<and> group_A \<in> set (headings gs_lists) \<and> 0 < length (items group_A)
   \<and> flexGroupId (items group_A ! 0) \<noteq> None
   \<and> isUnordered (text_str (items group_A ! 0))
   \<and> isListItem (items group_A ! 0)
   \<and> listMarker (items group_A ! 0) = Some ''-''
   \<and> \<not> isStatic (items group_A ! 0)
   \<and> \<not> isSubHeading (items group_A ! 0)
   \<and> \<not> indentation (items group_A ! Suc 0) > indentation (items group_A ! 0)"
proof -
  have g: "group_A \<in> set (headings gs_lists)" by (simp add: gs_lists_def)
  have j: "0 < length (items group_A)" by (simp add: group_A_def)
  have f: "flexGroupId (items group_A ! 0) \<noteq> None" by (simp add: group_A_def item_x_def)
  from flexGroupId_sound [OF parse_doc_lists g j f] parse_doc_lists g j f
  show ?thesis by (simp add: group_A_def item_x_def item_y_def)
qed

section \<open>Blocks\<close>

lemma push_items:
  "items (p_current (push rnd st txt s sh b)) =
     items (p_current st) @
       [\<lparr>id_str = title (p_current st) @ ''-'' @ string_of_nat (length (items (p_current st)))
                   @ ''-'' @ random36 rnd (p_rand st) 5,
         text_str = txt, originalHeading = title (p_current st),
         originalIndex = length (items (p_current st)),
         indentation = indent_width txt, isListItem = (listMatch txt \<noteq> None),
         listMarker = listMatch txt, isStatic = s, isSubHeading = sh, blockId = b,
         flexGroupId = None\<rparr>]"
  by (simp add: push_def pushItem_def)

text \<open>
  The fragments that an inner loop appends: one for each line it consumes, carrying that
  line as its text and the block's id, and not static.
\<close>

definition block_rows :: "string option \<Rightarrow> string list \<Rightarrow> GameItem list \<Rightarrow> bool" where
  "block_rows b ls new \<longleftrightarrow>
     map text_str new = ls \<and> (\<forall>f\<in>set new. blockId f = b \<and> \<not> isStatic f \<and> \<not> isSubHeading f)"

lemma block_rows_Nil [simp]: "block_rows b [] []"
  by (simp add: block_rows_def)

lemma block_rows_Cons:
  assumes "text_str f = l" and "blockId f = b" and "\<not> isStatic f" and "\<not> isSubHeading f"
    and "block_rows b ls new"
  shows "block_rows b (l # ls) (f # new)"
  using assms by (simp add: block_rows_def)

lemma take_drop_step:
  assumes "i < length xs" and "Suc i \<le> n"
  shows "take (n - i) (drop i xs) = xs ! i # take (n - Suc i) (drop (Suc i) xs)"
proof -
  from assms(2) have "n - i = Suc (n - Suc i)" by arith
  moreover from assms(1) have "drop i xs = xs ! i # drop (Suc i) xs"
    by (simp add: Cons_nth_drop_Suc)
  ultimately show ?thesis by simp
qed

lemma table_rows_items:
  assumes "i \<le> length lines"
  shows "\<exists>new. items (p_current (snd (table_rows rnd lines bId i st))) = items (p_current st) @ new
           \<and> block_rows (Some bId)
                (take (fst (table_rows rnd lines bId i st) - i) (drop i lines)) new"
  using assms
proof (induction rnd lines bId i st rule: table_rows.induct)
  case (1 rnd lines bId i st)
  show ?case
  proof (cases "i < length lines \<and> startsWith (trim (lines ! i)) ''|''")
    case True
    let ?st1 = "push rnd st (lines ! i) False False (Some bId)"
    have eq: "table_rows rnd lines bId i st = table_rows rnd lines bId (Suc i) ?st1"
      using True by (subst table_rows.simps) simp
    from True "1.IH" obtain new
      where new: "items (p_current (snd (table_rows rnd lines bId (Suc i) ?st1)))
                    = items (p_current ?st1) @ new"
        and rows: "block_rows (Some bId)
                     (take (fst (table_rows rnd lines bId (Suc i) ?st1) - Suc i) (drop (Suc i) lines))
                     new"
      by auto
    obtain f where f: "items (p_current ?st1) = items (p_current st) @ [f]"
      and ff: "text_str f = lines ! i" "blockId f = Some bId" "\<not> isStatic f" "\<not> isSubHeading f"
      by (simp add: push_items)
    have ge: "Suc i \<le> fst (table_rows rnd lines bId (Suc i) ?st1)" by (rule table_rows_ge)
    then have "take (fst (table_rows rnd lines bId (Suc i) ?st1) - i) (drop i lines)
                 = lines ! i # take (fst (table_rows rnd lines bId (Suc i) ?st1) - Suc i)
                                 (drop (Suc i) lines)"
      using True by (intro take_drop_step) simp_all
    with rows ff have "block_rows (Some bId)
                         (take (fst (table_rows rnd lines bId (Suc i) ?st1) - i) (drop i lines))
                         (f # new)"
      by (simp add: block_rows_Cons)
    with new f show ?thesis unfolding eq by (intro exI [of _ "f # new"]) simp
  next
    case False
    then have "table_rows rnd lines bId i st = (i, st)" by (subst table_rows.simps) auto
    then show ?thesis by simp
  qed
qed

lemma callout_rows_items:
  assumes "i \<le> length lines"
  shows "\<exists>new. items (p_current (snd (callout_rows rnd lines bId i st))) = items (p_current st) @ new
           \<and> block_rows (Some bId)
                (take (fst (callout_rows rnd lines bId i st) - i) (drop i lines)) new"
  using assms
proof (induction rnd lines bId i st rule: callout_rows.induct)
  case (1 rnd lines bId i st)
  show ?case
  proof (cases "i < length lines \<and> startsWith (trim (lines ! i)) ''>''")
    case True
    let ?st1 = "push rnd st (lines ! i) False False (Some bId)"
    have eq: "callout_rows rnd lines bId i st = callout_rows rnd lines bId (Suc i) ?st1"
      using True by (subst callout_rows.simps) simp
    from True "1.IH" obtain new
      where new: "items (p_current (snd (callout_rows rnd lines bId (Suc i) ?st1)))
                    = items (p_current ?st1) @ new"
        and rows: "block_rows (Some bId)
                     (take (fst (callout_rows rnd lines bId (Suc i) ?st1) - Suc i)
                        (drop (Suc i) lines))
                     new"
      by auto
    obtain f where f: "items (p_current ?st1) = items (p_current st) @ [f]"
      and ff: "text_str f = lines ! i" "blockId f = Some bId" "\<not> isStatic f" "\<not> isSubHeading f"
      by (simp add: push_items)
    have ge: "Suc i \<le> fst (callout_rows rnd lines bId (Suc i) ?st1)" by (rule callout_rows_ge)
    then have "take (fst (callout_rows rnd lines bId (Suc i) ?st1) - i) (drop i lines)
                 = lines ! i # take (fst (callout_rows rnd lines bId (Suc i) ?st1) - Suc i)
                                 (drop (Suc i) lines)"
      using True by (intro take_drop_step) simp_all
    with rows ff have "block_rows (Some bId)
                         (take (fst (callout_rows rnd lines bId (Suc i) ?st1) - i) (drop i lines))
                         (f # new)"
      by (simp add: block_rows_Cons)
    with new f show ?thesis unfolding eq by (intro exI [of _ "f # new"]) simp
  next
    case False
    then have "callout_rows rnd lines bId i st = (i, st)" by (subst callout_rows.simps) auto
    then show ?thesis by simp
  qed
qed

text \<open>A line that opens a group, or a sub-heading, starts with \<^verbatim>\<open>#\<close> and opens no block.\<close>

lemma trim_Cons:
  assumes "\<not> is_ws c"
  shows "trim (c # t) = c # rev (dropWhile is_ws (rev t))"
  using assms by (simp add: trim_def dropWhile_append3)

lemma headingMatch_hash:
  assumes "headingMatch l = Some x"
  obtains t where "l = CHR ''#'' # t"
  using assms by (cases l) (auto simp: headingMatch_def Let_def split: if_splits)

lemma heading_line:
  assumes "headingMatch l = Some x"
  shows "l \<noteq> []" and "\<not> startsWith (trim l) ''|''" and "\<not> startsWith (trim l) ''>''"
    and "\<not> startsWith (trim l) ''> [!''" and "\<not> separatorMatch (trim l)"
proof -
  from assms obtain t where l: "l = CHR ''#'' # t" by (rule headingMatch_hash)
  have tr: "trim l = CHR ''#'' # rev (dropWhile is_ws (rev t))"
    unfolding l by (rule trim_Cons) (simp add: is_ws_def)
  show "l \<noteq> []" by (simp add: l)
  show "\<not> startsWith (trim l) ''|''" and "\<not> startsWith (trim l) ''>''"
    and "\<not> startsWith (trim l) ''> [!''"
    by (simp_all add: tr startsWith_def)
  show "\<not> separatorMatch (trim l)"
    by (simp add: tr separatorMatch_def m_seq_def m_opt_def m_char_def m_plus_def
        is_sep_char_def is_ws_def)
qed

lemma trim_Nil [simp]: "trim [] = []"
  by (simp add: trim_def)

lemma isBlockFullyRestored_spec:
  "isBlockFullyRestored bId g sl =
     Inr (\<forall>idx<length (items g). blockId (items g ! idx) = Some bId \<longrightarrow>
            isSlotCorrect (slot_at sl idx) idx g = Inr True)"
proof -
  let ?p = "\<lambda>idx. isSlotCorrect (slot_at sl idx) idx g"
  have "\<forall>x\<in>set (blockIndices bId g). \<exists>b. ?p x = Inr b"
    by (auto simp: blockIndices_def isSlotCorrect_in_range)
  then have "every_e ?p (blockIndices bId g) = Inr (\<forall>x\<in>set (blockIndices bId g). ?p x = Inr True)"
    by (rule every_e_total)
  moreover have "(\<forall>x\<in>set (blockIndices bId g). ?p x = Inr True)
                   \<longleftrightarrow> (\<forall>idx<length (items g). blockId (items g ! idx) = Some bId \<longrightarrow>
                          ?p idx = Inr True)"
    by (auto simp: blockIndices_def)
  ultimately show ?thesis by (simp add: isBlockFullyRestored_def)
qed

subsection \<open>The lines of a block\<close>

definition makes_fragment :: "string \<Rightarrow> bool" where
  "makes_fragment l \<longleftrightarrow>
     l \<noteq> [] \<and> (case headingMatch l of None \<Rightarrow> True | Some (level, ttl) \<Rightarrow> \<not> level \<le> 2)"

definition fragment_lines :: "string list \<Rightarrow> nat list" where
  "fragment_lines lines = filter (\<lambda>k. makes_fragment (lines ! k)) [0..<length lines]"

definition all_items :: "GameHeading list \<Rightarrow> GameItem list" where
  "all_items hs = concat (map items hs)"

definition rows_extent :: "(string \<Rightarrow> bool) \<Rightarrow> string list \<Rightarrow> nat \<Rightarrow> nat \<Rightarrow> bool" where
  "rows_extent P lines i i' \<longleftrightarrow>
     i \<le> i' \<and> i' \<le> length lines \<and> list_all P (take (i' - i) (drop i lines))
     \<and> \<not> (i' < length lines \<and> P (lines ! i'))"

definition is_row :: "string \<Rightarrow> bool" where
  "is_row l \<longleftrightarrow> startsWith (trim l) ''|''"

definition is_quote :: "string \<Rightarrow> bool" where
  "is_quote l \<longleftrightarrow> startsWith (trim l) ''>''"

definition opens_table :: "string list \<Rightarrow> nat \<Rightarrow> bool" where
  "opens_table lines n \<longleftrightarrow> is_row (lines ! n) \<and> separatorMatch (nextLine lines n)"

definition opens_callout :: "string list \<Rightarrow> nat \<Rightarrow> bool" where
  "opens_callout lines n \<longleftrightarrow> startsWith (trim (lines ! n)) ''> [!''"

definition table_at :: "string list \<Rightarrow> nat \<Rightarrow> nat \<Rightarrow> bool" where
  "table_at lines n m \<longleftrightarrow> opens_table lines n \<and> 2 \<le> m \<and> rows_extent is_row lines (n + 2) (n + m)"

definition callout_at :: "string list \<Rightarrow> nat \<Rightarrow> nat \<Rightarrow> bool" where
  "callout_at lines n m \<longleftrightarrow>
     n < length lines \<and> opens_callout lines n \<and> 1 \<le> m \<and> rows_extent is_quote lines (Suc n) (n + m)"

definition block_at :: "string list \<Rightarrow> string \<Rightarrow> nat \<Rightarrow> nat \<Rightarrow> bool" where
  "block_at lines b n m \<longleftrightarrow>
     (b = ''table-'' @ string_of_nat n \<and> table_at lines n m)
     \<or> (b = ''callout-'' @ string_of_nat n \<and> callout_at lines n m)"

lemma table_rows_extent:
  assumes "i \<le> length lines"
  shows "rows_extent is_row lines i (fst (table_rows rnd lines bId i st))"
  using assms
proof (induction rnd lines bId i st rule: table_rows.induct)
  case (1 rnd lines bId i st)
  show ?case
  proof (cases "i < length lines \<and> startsWith (trim (lines ! i)) ''|''")
    case True
    let ?st1 = "push rnd st (lines ! i) False False (Some bId)"
    let ?i' = "fst (table_rows rnd lines bId (Suc i) ?st1)"
    have eq: "table_rows rnd lines bId i st = table_rows rnd lines bId (Suc i) ?st1"
      using True by (subst table_rows.simps) simp
    from True "1.IH" have ih: "rows_extent is_row lines (Suc i) ?i'" by simp
    then have ge: "Suc i \<le> ?i'" by (simp add: rows_extent_def)
    have "take (?i' - i) (drop i lines) = lines ! i # take (?i' - Suc i) (drop (Suc i) lines)"
      using True ge by (intro take_drop_step) simp_all
    moreover from True have "is_row (lines ! i)" by (simp add: is_row_def)
    ultimately show ?thesis
      using ih unfolding eq by (simp add: rows_extent_def)
  next
    case False
    then have "table_rows rnd lines bId i st = (i, st)" by (subst table_rows.simps) auto
    with False "1.prems" show ?thesis by (auto simp: rows_extent_def is_row_def)
  qed
qed

lemma callout_rows_extent:
  assumes "i \<le> length lines"
  shows "rows_extent is_quote lines i (fst (callout_rows rnd lines bId i st))"
  using assms
proof (induction rnd lines bId i st rule: callout_rows.induct)
  case (1 rnd lines bId i st)
  show ?case
  proof (cases "i < length lines \<and> startsWith (trim (lines ! i)) ''>''")
    case True
    let ?st1 = "push rnd st (lines ! i) False False (Some bId)"
    let ?i' = "fst (callout_rows rnd lines bId (Suc i) ?st1)"
    have eq: "callout_rows rnd lines bId i st = callout_rows rnd lines bId (Suc i) ?st1"
      using True by (subst callout_rows.simps) simp
    from True "1.IH" have ih: "rows_extent is_quote lines (Suc i) ?i'" by simp
    then have ge: "Suc i \<le> ?i'" by (simp add: rows_extent_def)
    have "take (?i' - i) (drop i lines) = lines ! i # take (?i' - Suc i) (drop (Suc i) lines)"
      using True ge by (intro take_drop_step) simp_all
    moreover from True have "is_quote (lines ! i)" by (simp add: is_quote_def)
    ultimately show ?thesis
      using ih unfolding eq by (simp add: rows_extent_def)
  next
    case False
    then have "callout_rows rnd lines bId i st = (i, st)" by (subst callout_rows.simps) auto
    with False "1.prems" show ?thesis by (auto simp: rows_extent_def is_quote_def)
  qed
qed

text \<open>What one iteration of the loop appends to the group in progress.\<close>

definition appended :: "string list \<Rightarrow> nat \<Rightarrow> nat \<Rightarrow> GameItem list \<Rightarrow> bool" where
  "appended lines i i' new \<longleftrightarrow>
     i < i' \<and> i' \<le> length lines \<and> map text_str new = take (i' - i) (drop i lines)
     \<and> ((i' = Suc i \<and> \<not> opens_table lines i \<and> \<not> opens_callout lines i
          \<and> (\<forall>f\<in>set new. blockId f = None \<and> \<not> isStatic f
                \<and> (isSubHeading f \<longleftrightarrow> headingMatch (lines ! i) \<noteq> None)))
         \<or> (\<exists>b. block_at lines b i (i' - i) \<and> (\<forall>f\<in>set new. blockId f = Some b \<and> \<not> isSubHeading f)))"

lemma take_one_drop:
  assumes "i < length xs"
  shows "take (Suc 0) (drop i xs) = [xs ! i]"
  using assms by (simp add: hd_drop_conv_nth take_Suc)

lemma parse_step_summary:
  assumes "i < length lines" and "parse_step rnd lines i st = Inr (i', st')"
  shows "(\<not> makes_fragment (lines ! i) \<and> i' = Suc i
            \<and> (st' = st
               \<or> (items (p_current st') = []
                   \<and> p_headings st' = (if items (p_current st) \<noteq> []
                                        then p_headings st @ [p_current st] else p_headings st))))
         \<or> (makes_fragment (lines ! i) \<and> p_headings st' = p_headings st
             \<and> title (p_current st') = title (p_current st)
             \<and> (\<exists>new. items (p_current st') = items (p_current st) @ new
                    \<and> appended lines i i' new))"
proof (cases rule: parse_step_cases [of lines i rnd st])
  case blank
  with assms(2) show ?thesis by (auto simp: makes_fragment_def)
next
  case (heading level ttl)
  with assms(2) show ?thesis by (auto simp: makes_fragment_def)
next
  case (subheading level ttl)
  have mf: "makes_fragment (lines ! i)" using subheading(1,2,3) by (simp add: makes_fragment_def)
  from heading_line(2,4) [OF subheading(2)]
  have no: "\<not> opens_table lines i" "\<not> opens_callout lines i"
    by (simp_all add: opens_table_def opens_callout_def is_row_def)
  from subheading(4) assms(2) have st': "st' = push rnd st (lines ! i) False True None"
    and i': "i' = Suc i" by simp_all
  obtain f where f: "items (p_current st') = items (p_current st) @ [f]"
    and ff: "text_str f = lines ! i" "blockId f = None" "\<not> isStatic f" "isSubHeading f"
    unfolding st' by (simp add: push_items)
  have "appended lines i i' [f]"
    using assms(1) ff no subheading(2) by (simp add: appended_def i' take_one_drop)
  with mf f show ?thesis by (auto simp: st')
next
  case table
  let ?b = "''table-'' @ string_of_nat i"
  let ?st1 = "push rnd st (lines ! i) True False (Some ?b)"
  let ?st2 = "push rnd ?st1 (lines ! Suc i) True False (Some ?b)"
  have mf: "makes_fragment (lines ! i)" using table(1,2) by (simp add: makes_fragment_def)
  from table(6) assms(2) have res: "table_rows rnd lines ?b (i + 2) ?st2 = (i', st')" by simp
  from table(5) have le: "i + 2 \<le> length lines" by simp
  from table_rows_items [OF le, of rnd ?b ?st2] res
  obtain new2 where new2: "items (p_current st') = items (p_current ?st2) @ new2"
    and rows: "block_rows (Some ?b) (take (i' - (i + 2)) (drop (i + 2) lines)) new2"
    by auto
  from table_rows_extent [OF le, of rnd ?b ?st2] res
  have ext: "rows_extent is_row lines (i + 2) i'" by simp
  then have ge: "i + 2 \<le> i'" and up: "i' \<le> length lines" by (simp_all add: rows_extent_def)
  obtain f1 where f1: "items (p_current ?st1) = items (p_current st) @ [f1]"
    and ff1: "text_str f1 = lines ! i" "blockId f1 = Some ?b" "\<not> isSubHeading f1"
    by (simp add: push_items)
  obtain f2 where f2: "items (p_current ?st2) = items (p_current ?st1) @ [f2]"
    and ff2: "text_str f2 = lines ! Suc i" "blockId f2 = Some ?b" "\<not> isSubHeading f2"
    by (simp add: push_items)
  have "take (i' - i) (drop i lines) = lines ! i # take (i' - Suc i) (drop (Suc i) lines)"
    using assms(1) ge by (intro take_drop_step) simp_all
  also have "take (i' - Suc i) (drop (Suc i) lines)
          = lines ! Suc i # take (i' - Suc (Suc i)) (drop (Suc (Suc i)) lines)"
    using table(5) ge by (intro take_drop_step) simp_all
  finally have texts: "map text_str (f1 # f2 # new2) = take (i' - i) (drop i lines)"
    using rows ff1 ff2 by (simp add: block_rows_def)
  have ids: "\<forall>f\<in>set (f1 # f2 # new2). blockId f = Some ?b \<and> \<not> isSubHeading f"
    using rows ff1 ff2 by (simp add: block_rows_def)
  have "i + (i' - i) = i'" using ge by simp
  with ext ge table(3,4) have "table_at lines i (i' - i)"
    by (simp add: table_at_def opens_table_def is_row_def)
  then have "block_at lines ?b i (i' - i)" by (simp add: block_at_def)
  with texts ids ge up have "appended lines i i' (f1 # f2 # new2)"
    unfolding appended_def by (intro conjI disjI2 exI [of _ ?b]) simp_all
  moreover have "items (p_current st') = items (p_current st) @ (f1 # f2 # new2)"
    using new2 f1 f2 by simp
  moreover from res have st': "st' = snd (table_rows rnd lines ?b (i + 2) ?st2)" by simp
  have "p_headings st' = p_headings st" "title (p_current st') = title (p_current st)"
    unfolding st' by simp_all
  ultimately show ?thesis using mf by blast
next
  case callout
  let ?b = "''callout-'' @ string_of_nat i"
  let ?st1 = "push rnd st (lines ! i) True False (Some ?b)"
  have mf: "makes_fragment (lines ! i)" using callout(1,2) by (simp add: makes_fragment_def)
  from callout(5) assms(2) have res: "callout_rows rnd lines ?b (Suc i) ?st1 = (i', st')" by simp
  from assms(1) have le: "Suc i \<le> length lines" by simp
  from callout_rows_items [OF le, of rnd ?b ?st1] res
  obtain new2 where new2: "items (p_current st') = items (p_current ?st1) @ new2"
    and rows: "block_rows (Some ?b) (take (i' - Suc i) (drop (Suc i) lines)) new2"
    by auto
  from callout_rows_extent [OF le, of rnd ?b ?st1] res
  have ext: "rows_extent is_quote lines (Suc i) i'" by simp
  then have ge: "Suc i \<le> i'" and up: "i' \<le> length lines" by (simp_all add: rows_extent_def)
  obtain f1 where f1: "items (p_current ?st1) = items (p_current st) @ [f1]"
    and ff1: "text_str f1 = lines ! i" "blockId f1 = Some ?b" "\<not> isSubHeading f1"
    by (simp add: push_items)
  have "take (i' - i) (drop i lines) = lines ! i # take (i' - Suc i) (drop (Suc i) lines)"
    using assms(1) ge by (rule take_drop_step)
  then have texts: "map text_str (f1 # new2) = take (i' - i) (drop i lines)"
    using rows ff1 by (simp add: block_rows_def)
  have ids: "\<forall>f\<in>set (f1 # new2). blockId f = Some ?b \<and> \<not> isSubHeading f"
    using rows ff1 by (simp add: block_rows_def)
  have "i + (i' - i) = i'" using ge by simp
  with ext ge callout(4) assms(1) have "callout_at lines i (i' - i)"
    by (simp add: callout_at_def opens_callout_def)
  then have "block_at lines ?b i (i' - i)" by (simp add: block_at_def)
  with texts ids ge up have "appended lines i i' (f1 # new2)"
    unfolding appended_def by (intro conjI disjI2 exI [of _ ?b]) simp_all
  moreover have "items (p_current st') = items (p_current st) @ (f1 # new2)"
    using new2 f1 by simp
  moreover from res have st': "st' = snd (callout_rows rnd lines ?b (Suc i) ?st1)" by simp
  have "p_headings st' = p_headings st" "title (p_current st') = title (p_current st)"
    unfolding st' by simp_all
  ultimately show ?thesis using mf by blast
next
  case plain
  have mf: "makes_fragment (lines ! i)" using plain(1,2) by (simp add: makes_fragment_def)
  from plain(3,4) have no: "\<not> opens_table lines i" "\<not> opens_callout lines i"
    by (simp_all add: opens_table_def opens_callout_def is_row_def)
  from plain(5) assms(2) have st': "st' = push rnd st (lines ! i) False False None"
    and i': "i' = Suc i" by simp_all
  obtain f where f: "items (p_current st') = items (p_current st) @ [f]"
    and ff: "text_str f = lines ! i" "blockId f = None" "\<not> isStatic f" "\<not> isSubHeading f"
    unfolding st' by (simp add: push_items)
  have "appended lines i i' [f]"
    using assms(1) ff no plain(2) by (simp add: appended_def i' take_one_drop)
  with mf f show ?thesis by (auto simp: st')
qed

subsection \<open>The blocks of a group\<close>

definition block_run :: "string list \<Rightarrow> GameItem list \<Rightarrow> string \<Rightarrow> nat \<Rightarrow> nat \<Rightarrow> nat \<Rightarrow> bool" where
  "block_run lines its b n m lo \<longleftrightarrow>
     block_at lines b n m \<and> lo + m \<le> length its
     \<and> map text_str (take m (drop lo its)) = take m (drop n lines)
     \<and> (\<forall>k<length its. blockId (its ! k) = Some b \<longleftrightarrow> lo \<le> k \<and> k < lo + m)"

definition blocks_ok :: "string list \<Rightarrow> nat \<Rightarrow> GameItem list \<Rightarrow> bool" where
  "blocks_ok lines i its \<longleftrightarrow>
     (\<forall>j<length its. \<forall>b. blockId (its ! j) = Some b \<longrightarrow>
        (\<exists>n m lo. n + m \<le> i \<and> block_run lines its b n m lo))"

lemma block_at_pos: "block_at lines b n m \<Longrightarrow> 1 \<le> m"
  by (auto simp: block_at_def table_at_def callout_at_def)

lemma block_at_inj:
  assumes "block_at lines b n m" and "block_at lines b n' m'"
  shows "n = n'"
  using assms by (auto simp: block_at_def dest: string_of_nat_inj)

lemma block_at_bound: "block_at lines b n m \<Longrightarrow> n + m \<le> length lines"
  by (auto simp: block_at_def table_at_def callout_at_def rows_extent_def)

lemma blocks_ok_Nil [simp]: "blocks_ok lines i []"
  by (simp add: blocks_ok_def)

lemma blocks_ok_mono: "blocks_ok lines i its \<Longrightarrow> i \<le> i' \<Longrightarrow> blocks_ok lines i' its"
  unfolding blocks_ok_def by (meson le_trans)

lemma block_run_append:
  assumes "block_run lines its b n m lo" and "\<forall>f\<in>set new. blockId f \<noteq> Some b"
  shows "block_run lines (its @ new) b n m lo"
proof -
  from assms(1) have at: "block_at lines b n m" and le: "lo + m \<le> length its"
    and tx: "map text_str (take m (drop lo its)) = take m (drop n lines)"
    and iff: "\<forall>k<length its. blockId (its ! k) = Some b \<longleftrightarrow> lo \<le> k \<and> k < lo + m"
    by (simp_all add: block_run_def)
  from le have "take m (drop lo (its @ new)) = take m (drop lo its)" by simp
  with tx have tx': "map text_str (take m (drop lo (its @ new))) = take m (drop n lines)" by simp
  have iff': "blockId ((its @ new) ! k) = Some b \<longleftrightarrow> lo \<le> k \<and> k < lo + m"
    if "k < length (its @ new)" for k
  proof (cases "k < length its")
    case True
    with iff show ?thesis by (simp add: nth_append)
  next
    case False
    with that have "(its @ new) ! k \<in> set new" by (simp add: nth_append)
    with assms(2) have "blockId ((its @ new) ! k) \<noteq> Some b" by blast
    with False le show ?thesis by simp
  qed
  from at le tx' iff' show ?thesis by (simp add: block_run_def)
qed

lemma appended_length:
  assumes "appended lines i i' new"
  shows "length new = i' - i"
proof -
  from assms have "map text_str new = take (i' - i) (drop i lines)" and "i' \<le> length lines"
    by (simp_all add: appended_def)
  then have "length (map text_str new) = i' - i" by simp
  then show ?thesis by simp
qed

lemma blocks_ok_append:
  assumes ok: "blocks_ok lines i its" and app: "appended lines i i' new"
  shows "blocks_ok lines i' (its @ new)"
  unfolding blocks_ok_def
proof (intro allI impI)
  fix j b
  assume j: "j < length (its @ new)" and b: "blockId ((its @ new) ! j) = Some b"
  from app have lt: "i < i'" and tx: "map text_str new = take (i' - i) (drop i lines)"
    by (simp_all add: appended_def)
  have old: "\<exists>n m lo. n + m \<le> i' \<and> block_run lines (its @ new) b n m lo"
    if jj: "j < length its" and other: "\<forall>f\<in>set new. blockId f \<noteq> Some b"
  proof -
    from jj b have "blockId (its ! j) = Some b" by (simp add: nth_append)
    with ok jj obtain n m lo where "n + m \<le> i" and "block_run lines its b n m lo"
      unfolding blocks_ok_def by blast
    with other lt show ?thesis using block_run_append by (meson le_trans less_imp_le)
  qed
  from app consider
      (ordinary) "\<forall>f\<in>set new. blockId f = None"
    | (block) b0 where "block_at lines b0 i (i' - i)" "\<forall>f\<in>set new. blockId f = Some b0"
    unfolding appended_def by blast
  then show "\<exists>n m lo. n + m \<le> i' \<and> block_run lines (its @ new) b n m lo"
  proof cases
    case ordinary
    then have other: "\<forall>f\<in>set new. blockId f \<noteq> Some b" by simp
    have "j < length its"
    proof (rule ccontr)
      assume "\<not> j < length its"
      with j have "(its @ new) ! j \<in> set new" by (simp add: nth_append)
      with other b show False by blast
    qed
    then show ?thesis using other by (rule old)
  next
    case block
    show ?thesis
    proof (cases "b = b0")
      case False
      with block(2) have other: "\<forall>f\<in>set new. blockId f \<noteq> Some b" by simp
      have "j < length its"
      proof (rule ccontr)
        assume "\<not> j < length its"
        with j have "(its @ new) ! j \<in> set new" by (simp add: nth_append)
        with other b show False by blast
      qed
      then show ?thesis using other by (rule old)
    next
      case True
      have len: "length new = i' - i" using app by (rule appended_length)
      have fresh: "blockId (its ! k) \<noteq> Some b0" if "k < length its" for k
      proof
        assume "blockId (its ! k) = Some b0"
        with ok that obtain n m lo where nm: "n + m \<le> i" and "block_run lines its b0 n m lo"
          unfolding blocks_ok_def by blast
        then have at: "block_at lines b0 n m" by (simp add: block_run_def)
        from block_at_inj [OF at block(1)] block_at_pos [OF at] nm show False by simp
      qed
      have iff: "blockId ((its @ new) ! k) = Some b0
                   \<longleftrightarrow> length its \<le> k \<and> k < length its + (i' - i)"
        if "k < length (its @ new)" for k
      proof (cases "k < length its")
        case True
        with fresh show ?thesis by (simp add: nth_append)
      next
        case False
        with that have "(its @ new) ! k \<in> set new" by (simp add: nth_append)
        with block(2) have "blockId ((its @ new) ! k) = Some b0" by blast
        with False that len show ?thesis by simp
      qed
      have "block_run lines (its @ new) b0 i (i' - i) (length its)"
        unfolding block_run_def using block(1) len tx iff by simp
      moreover have "i + (i' - i) \<le> i'" using lt by simp
      ultimately show ?thesis unfolding True by blast
    qed
  qed
qed

definition groups_ok :: "string list \<Rightarrow> nat \<Rightarrow> PState \<Rightarrow> bool" where
  "groups_ok lines i st \<longleftrightarrow>
     (\<forall>h\<in>set (p_headings st). blocks_ok lines i (items h)) \<and> blocks_ok lines i (items (p_current st))"

lemma parse_step_groups_ok:
  assumes "groups_ok lines i st" and "i < length lines"
    and "parse_step rnd lines i st = Inr (i', st')"
  shows "groups_ok lines i' st'"
proof -
  from assms(3) have lt: "i \<le> i'" using parse_step_progress by fastforce
  from assms(1) have old: "\<forall>h\<in>set (p_headings st). blocks_ok lines i' (items h)"
    and cur: "blocks_ok lines i' (items (p_current st))"
    using lt by (auto simp: groups_ok_def intro: blocks_ok_mono)
  from parse_step_summary [OF assms(2,3)] consider
      (same) "st' = st"
    | (closed) "items (p_current st') = []"
        "p_headings st' = (if items (p_current st) \<noteq> []
                            then p_headings st @ [p_current st] else p_headings st)"
    | (more) new where "p_headings st' = p_headings st"
        "items (p_current st') = items (p_current st) @ new" "appended lines i i' new"
    by blast
  then show ?thesis
  proof cases
    case same
    with old cur show ?thesis by (simp add: groups_ok_def)
  next
    case closed
    with old cur show ?thesis by (auto simp: groups_ok_def)
  next
    case more
    from assms(1) have "blocks_ok lines i (items (p_current st))" by (simp add: groups_ok_def)
    from blocks_ok_append [OF this more(3)] more(1,2) old show ?thesis
      by (simp add: groups_ok_def)
  qed
qed

lemma parse_loop_groups_ok:
  assumes "parse_loop rnd lines 0 parse_init = Inr st"
  shows "\<exists>j. groups_ok lines j st"
proof -
  have "\<exists>j. length lines \<le> j \<and> groups_ok lines j st"
    using assms
  proof (rule parse_loop_invariant [where I = "groups_ok lines"])
    show "groups_ok lines 0 parse_init" by (simp add: groups_ok_def parse_init_def)
  next
    fix j s j' s'
    assume "groups_ok lines j s" "j < length lines" "parse_step rnd lines j s = Inr (j', s')"
    then show "groups_ok lines j' s'" by (rule parse_step_groups_ok)
  qed
  then show ?thesis by blast
qed

definition unflex :: "GameItem \<Rightarrow> GameItem" where
  "unflex f = f\<lparr>flexGroupId := None\<rparr>"

lemma unflex_fields [simp]:
  "text_str (unflex f) = text_str f" "blockId (unflex f) = blockId f"
  "isStatic (unflex f) = isStatic f" "isSubHeading (unflex f) = isSubHeading f"
  by (simp_all add: unflex_def)

lemma unflex_id: "flexGroupId f = None \<Longrightarrow> unflex f = f"
  by (cases f) (simp add: unflex_def)

lemma flex_heading_unflex:
  assumes "heading_wf rnd h" and "unflexed h"
  shows "map unflex (items (fst (flex_heading rnd k h))) = items h"
proof (rule nth_equalityI)
  show "length (map unflex (items (fst (flex_heading rnd k h)))) = length (items h)"
    using flex_heading_props(3) [OF assms] by simp
next
  fix i
  assume "i < length (map unflex (items (fst (flex_heading rnd k h))))"
  then have i: "i < length (items h)" using flex_heading_props(3) [OF assms, of k] by simp
  with flex_heading_props(4) [OF assms, of k]
  have "same_but_flex (items h ! i) (items (fst (flex_heading rnd k h)) ! i)" by blast
  then have "unflex (items (fst (flex_heading rnd k h)) ! i) = unflex (items h ! i)"
    by (simp add: same_but_flex_def unflex_def)
  moreover from assms(2) i have "flexGroupId (items h ! i) = None" by (simp add: unflexed_def)
  ultimately show "map unflex (items (fst (flex_heading rnd k h))) ! i = items h ! i"
    using i flex_heading_props(3) [OF assms, of k] by (simp add: unflex_id)
qed

lemma flex_all_unflex:
  assumes "\<forall>h\<in>set hs. heading_wf rnd h \<and> unflexed h"
  shows "map (\<lambda>h. map unflex (items h)) (flex_all rnd k hs) = map items hs"
  using assms by (induction hs arbitrary: k) (simp_all add: flex_heading_unflex)

lemma parsed_unflex:
  assumes "parseMarkdownToGame rnd content fName fPath = Inr gs"
  obtains st where "parse_loop rnd (split_lines content) 0 parse_init = Inr st"
    and "map (\<lambda>h. map unflex (items h)) (headings gs) = map items (p_headings st @ [p_current st])"
proof -
  from assms obtain st
    where loop: "parse_loop rnd (split_lines content) 0 parse_init = Inr st"
      and hs: "headings gs = flex_all rnd (p_rand st) (p_headings st @ [p_current st])"
      and inv: "pstate_inv rnd st"
    by (rule parse_result)
  from inv have "\<forall>h\<in>set (p_headings st @ [p_current st]). heading_wf rnd h \<and> unflexed h"
    by (auto simp: pstate_inv_def)
  then have "map (\<lambda>h. map unflex (items h)) (headings gs) = map items (p_headings st @ [p_current st])"
    unfolding hs by (rule flex_all_unflex)
  with loop that show ?thesis by blast
qed

lemma block_run_unflex:
  assumes "block_run lines (map unflex its) b n m lo"
  shows "block_run lines its b n m lo"
proof -
  have "map text_str (take m (drop lo (map unflex its))) = map text_str (take m (drop lo its))"
    by (simp add: take_map drop_map comp_def)
  with assms show ?thesis by (simp add: block_run_def)
qed

lemma blocks_ok_unflex:
  assumes "blocks_ok lines i (map unflex its)"
  shows "blocks_ok lines i its"
  unfolding blocks_ok_def
proof (intro allI impI)
  fix j b
  assume "j < length its" and "blockId (its ! j) = Some b"
  then have "j < length (map unflex its)" and "blockId (map unflex its ! j) = Some b" by simp_all
  with assms obtain n m lo where "n + m \<le> i" and "block_run lines (map unflex its) b n m lo"
    unfolding blocks_ok_def by blast
  then show "\<exists>n m lo. n + m \<le> i \<and> block_run lines its b n m lo"
    using block_run_unflex by blast
qed

lemma parsed_blocks_ok:
  assumes "parseMarkdownToGame rnd content fName fPath = Inr gs"
    and "same_document (headings gs) hs" and "a < length hs"
  shows "\<exists>i. blocks_ok (split_lines content) i (items (hs ! a))"
proof -
  from assms(1) obtain st
    where loop: "parse_loop rnd (split_lines content) 0 parse_init = Inr st"
      and un: "map (\<lambda>h. map unflex (items h)) (headings gs) = map items (p_headings st @ [p_current st])"
    by (rule parsed_unflex)
  from parse_loop_groups_ok [OF loop] obtain i where ok: "groups_ok (split_lines content) i st"
    by blast
  from assms(2,3) have a: "a < length (headings gs)" by (simp add: same_document_length)
  then have a': "a < length (p_headings st @ [p_current st])"
    using un [THEN arg_cong, of length] by simp
  have "map (\<lambda>h. map unflex (items h)) (headings gs) ! a = map unflex (items (headings gs ! a))"
    using a by (rule nth_map)
  moreover have "map items (p_headings st @ [p_current st]) ! a
                   = items ((p_headings st @ [p_current st]) ! a)"
    using a' by (rule nth_map)
  ultimately have eq: "map unflex (items (headings gs ! a)) = items ((p_headings st @ [p_current st]) ! a)"
    by (simp only: un)
  have "(p_headings st @ [p_current st]) ! a \<in> set (p_headings st @ [p_current st])"
    using a' by (rule nth_mem)
  with ok have "blocks_ok (split_lines content) i (items ((p_headings st @ [p_current st]) ! a))"
    by (auto simp: groups_ok_def)
  then have "blocks_ok (split_lines content) i (items (headings gs ! a))"
    unfolding eq [symmetric] by (rule blocks_ok_unflex)
  then show ?thesis using same_document_nth(2) [OF assms(2) a] by auto
qed

text \<open>
  C5. In every state of the game whose groups are those of a parsed document, a fragment
  with a \<open>blockId\<close> \<open>b\<close> belongs to a parsed block: \<open>b\<close> is \<^verbatim>\<open>table-n\<close> or \<^verbatim>\<open>callout-n\<close>
  for a line \<open>n\<close> of the document at which a table of \<open>m\<close> lines (the header, the
  separator row and every following line that starts with \<^verbatim>\<open>|\<close>) or a callout of \<open>m\<close>
  lines (the line that starts with \<^verbatim>\<open>> [!\<close> and every following line that starts with
  \<^verbatim>\<open>>\<close>) begins; the fragments of the lines \<open>n, \<dots>, n + m - 1\<close> are \<open>m\<close> consecutive
  fragments of the group, they all carry \<open>b\<close>, and no other fragment of the group does. For
  all slots \<open>isBlockFullyRestored\<close> returns a truth value: true if and only if
  \<open>isSlotCorrect\<close> holds at the index of each of these fragments, which are the fragments
  of the group whose \<open>blockId\<close> is \<open>b\<close>.
\<close>

theorem block_atomicity:
  assumes "parseMarkdownToGame rnd content fName fPath = Inr gs"
    and "same_document (headings gs) hs" and "a < length hs"
    and "j < length (items (hs ! a))" and "blockId (items (hs ! a) ! j) = Some b"
  shows "\<exists>n m lo. block_at (split_lines content) b n m
           \<and> lo \<le> j \<and> j < lo + m \<and> lo + m \<le> length (items (hs ! a))
           \<and> map text_str (take m (drop lo (items (hs ! a)))) = take m (drop n (split_lines content))
           \<and> (\<forall>k<length (items (hs ! a)).
                 blockId (items (hs ! a) ! k) = Some b \<longleftrightarrow> lo \<le> k \<and> k < lo + m)
           \<and> (\<forall>sl. isBlockFullyRestored b (hs ! a) sl
                       = Inr (\<forall>k<length (items (hs ! a)). blockId (items (hs ! a) ! k) = Some b
                                \<longrightarrow> isSlotCorrect (slot_at sl k) k (hs ! a) = Inr True)
                  \<and> isBlockFullyRestored b (hs ! a) sl
                       = Inr (\<forall>k. lo \<le> k \<and> k < lo + m
                                \<longrightarrow> isSlotCorrect (slot_at sl k) k (hs ! a) = Inr True))"
proof -
  let ?its = "items (hs ! a)"
  from parsed_blocks_ok [OF assms(1,2,3)] assms(4,5)
  obtain i n m lo where run: "block_run (split_lines content) ?its b n m lo"
    unfolding blocks_ok_def by blast
  then have at: "block_at (split_lines content) b n m" and le: "lo + m \<le> length ?its"
    and tx: "map text_str (take m (drop lo ?its)) = take m (drop n (split_lines content))"
    and iff: "\<forall>k<length ?its. blockId (?its ! k) = Some b \<longleftrightarrow> lo \<le> k \<and> k < lo + m"
    by (simp_all add: block_run_def)
  from iff assms(4,5) have j: "lo \<le> j" "j < lo + m" by blast+
  have r1: "isBlockFullyRestored b (hs ! a) sl
              = Inr (\<forall>k<length ?its. blockId (?its ! k) = Some b
                       \<longrightarrow> isSlotCorrect (slot_at sl k) k (hs ! a) = Inr True)" for sl
    by (rule isBlockFullyRestored_spec)
  have "(\<forall>k<length ?its. blockId (?its ! k) = Some b
             \<longrightarrow> isSlotCorrect (slot_at sl k) k (hs ! a) = Inr True)
        \<longleftrightarrow> (\<forall>k. lo \<le> k \<and> k < lo + m \<longrightarrow> isSlotCorrect (slot_at sl k) k (hs ! a) = Inr True)"
    for sl
    using iff le by (meson less_le_trans)
  with r1 have r2: "isBlockFullyRestored b (hs ! a) sl
              = Inr (\<forall>k. lo \<le> k \<and> k < lo + m
                       \<longrightarrow> isSlotCorrect (slot_at sl k) k (hs ! a) = Inr True)" for sl
    by simp
  from at j le tx iff r1 r2 show ?thesis by blast
qed

lemmas block_eval =
  block_at_def table_at_def callout_at_def opens_table_def opens_callout_def is_row_def
  is_quote_def rows_extent_def

lemma table_at_ex: "table_at lines_table 0 4"
  by (simp add: block_eval lines_table_def string_eval)

lemma callout_at_ex: "callout_at lines_callout 0 2"
  by (simp add: block_eval lines_callout_def string_eval)

theorem block_atomicity_witness:
  "parseMarkdownToGame ex_rnd doc_table ''notes'' ''notes.md'' = Inr gs_table
   \<and> same_document (headings gs_table) (headings gs_table)
   \<and> 0 < length (headings gs_table) \<and> 2 < length (items (headings gs_table ! 0))
   \<and> blockId (items (headings gs_table ! 0) ! 2) = Some ''table-0''
   \<and> table_at (split_lines doc_table) 0 4
   \<and> (\<exists>n m lo. block_at (split_lines doc_table) ''table-0'' n m \<and> lo \<le> 2 \<and> 2 < lo + m
          \<and> lo + m \<le> length (items (headings gs_table ! 0)))
   \<and> map blockId (items (headings gs_table ! 0))
        = [Some ''table-0'', Some ''table-0'', Some ''table-0'', Some ''table-0'']
   \<and> isBlockFullyRestored ''table-0'' (headings gs_table ! 0)
        [Some row_H, Some row_S, Some row_1, Some row_2] = Inr True
   \<and> isBlockFullyRestored ''table-0'' (headings gs_table ! 0)
        [Some row_H, Some row_S, Some row_2, Some row_1] = Inr False
   \<and> parseMarkdownToGame ex_rnd doc_callout ''notes'' ''notes.md'' = Inr gs_callout
   \<and> same_document (headings gs_callout) (headings gs_callout)
   \<and> 0 < length (headings gs_callout) \<and> 1 < length (items (headings gs_callout ! 0))
   \<and> blockId (items (headings gs_callout ! 0) ! 1) = Some ''callout-0''
   \<and> callout_at (split_lines doc_callout) 0 2
   \<and> (\<exists>n m lo. block_at (split_lines doc_callout) ''callout-0'' n m \<and> lo \<le> 1 \<and> 1 < lo + m
          \<and> lo + m \<le> length (items (headings gs_callout ! 0)))
   \<and> map blockId (items (headings gs_callout ! 0)) = [Some ''callout-0'', Some ''callout-0'', None]
   \<and> isBlockFullyRestored ''callout-0'' (headings gs_callout ! 0)
        [Some note_H, Some note_1, None] = Inr True
   \<and> isBlockFullyRestored ''callout-0'' (headings gs_callout ! 0)
        [Some note_H, None, Some note_after] = Inr False"
proof -
  let ?T = "headings gs_table ! 0" and ?C = "headings gs_callout ! 0"
  have t: "same_document (headings gs_table) (headings gs_table)"
    "0 < length (headings gs_table)" "2 < length (items ?T)"
    "blockId (items ?T ! 2) = Some ''table-0''"
    by (simp_all add: table_defs)
  have c: "same_document (headings gs_callout) (headings gs_callout)"
    "0 < length (headings gs_callout)" "1 < length (items ?C)"
    "blockId (items ?C ! 1) = Some ''callout-0''"
    by (simp_all add: callout_defs)
  have bt: "map blockId (items ?T)
              = [Some ''table-0'', Some ''table-0'', Some ''table-0'', Some ''table-0'']"
    by (simp add: table_defs)
  have bc: "map blockId (items ?C) = [Some ''callout-0'', Some ''callout-0'', None]"
    by (simp add: callout_defs)
  from block_atomicity [OF parse_doc_table t]
  obtain n m lo where "block_at (split_lines doc_table) ''table-0'' n m" "lo \<le> 2" "2 < lo + m"
    "lo + m \<le> length (items ?T)"
    and rt: "\<forall>sl. isBlockFullyRestored ''table-0'' ?T sl
                    = Inr (\<forall>k<length (items ?T). blockId (items ?T ! k) = Some ''table-0''
                             \<longrightarrow> isSlotCorrect (slot_at sl k) k ?T = Inr True)"
    by blast
  then have et: "\<exists>n m lo. block_at (split_lines doc_table) ''table-0'' n m \<and> lo \<le> 2 \<and> 2 < lo + m
          \<and> lo + m \<le> length (items ?T)"
    by blast
  from block_atomicity [OF parse_doc_callout c]
  obtain n' m' lo' where "block_at (split_lines doc_callout) ''callout-0'' n' m'" "lo' \<le> 1"
    "1 < lo' + m'" "lo' + m' \<le> length (items ?C)"
    and rc: "\<forall>sl. isBlockFullyRestored ''callout-0'' ?C sl
                    = Inr (\<forall>k<length (items ?C). blockId (items ?C ! k) = Some ''callout-0''
                             \<longrightarrow> isSlotCorrect (slot_at sl k) k ?C = Inr True)"
    by blast
  then have ec: "\<exists>n m lo. block_at (split_lines doc_callout) ''callout-0'' n m \<and> lo \<le> 1
          \<and> 1 < lo + m \<and> lo + m \<le> length (items ?C)"
    by blast
  have lt: "length (items ?T) = 4" and lc: "length (items ?C) = 3"
    by (simp_all add: table_defs callout_defs)
  have r1: "isBlockFullyRestored ''table-0'' ?T [Some row_H, Some row_S, Some row_1, Some row_2]
              = Inr True"
    unfolding rt [rule_format] lt
    by (simp add: table_defs slot_at_def nth_opt_def isSlotCorrect_def truthy_def less_Suc_eq
        numeral_eq_Suc all_conj_distrib)
  have r2: "isBlockFullyRestored ''table-0'' ?T [Some row_H, Some row_S, Some row_2, Some row_1]
              = Inr False"
    unfolding rt [rule_format] lt
    by (simp add: table_defs slot_at_def nth_opt_def isSlotCorrect_def truthy_def less_Suc_eq
        numeral_eq_Suc all_conj_distrib)
  have r3: "isBlockFullyRestored ''callout-0'' ?C [Some note_H, Some note_1, None] = Inr True"
    unfolding rc [rule_format] lc
    by (simp add: callout_defs slot_at_def nth_opt_def isSlotCorrect_def truthy_def less_Suc_eq
        numeral_eq_Suc all_conj_distrib)
  have r4: "isBlockFullyRestored ''callout-0'' ?C [Some note_H, None, Some note_after] = Inr False"
    unfolding rc [rule_format] lc
    by (simp add: callout_defs slot_at_def nth_opt_def isSlotCorrect_def truthy_def less_Suc_eq
        numeral_eq_Suc all_conj_distrib)
  from table_at_ex callout_at_ex
  have "table_at (split_lines doc_table) 0 4" "callout_at (split_lines doc_callout) 0 2"
    by (simp_all add: split_doc_table split_doc_callout)
  with parse_doc_table t et bt r1 r2 parse_doc_callout c ec bc r3 r4 show ?thesis by blast
qed

section \<open>Ids and decoys\<close>












section \<open>The win condition\<close>

lemma numToPrefill_medium_1: "numToPrefill Medium 1 = 0"
  by code_simp

lemma numToPrefill_medium_Suc: "numToPrefill Medium (Suc 0) = 0"
  using numToPrefill_medium_1 by (simp only: One_nat_def)

lemma prefilled_dup:
  "prefilledSet zero_rand Medium \<lparr>title = ''A'', items = [dup_x], isRestored = False\<rparr> = {}"
  by (simp add: prefilledSet_def playableIndices_def numToPrefill_medium_Suc dup_x_def
      plain_item_def)

lemma session_dup:
  "startSession zero_rand id 0 gs_dup
     = Inr (gs_dup\<lparr>activeHeadingIndex := Some 0, slots := [None],
                   poolItems := [dup_x, dup_y, dup_y, dup_y]\<rparr>)"
proof -
  have h: "nth_opt (headings gs_dup) 0 = Some \<lparr>title = ''A'', items = [dup_x], isRestored = False\<rparr>"
    and d: "difficulty gs_dup = Medium" and p: "prefilledIndices gs_dup = {}"
    by (simp_all add: gs_dup_def nth_opt_def)
  have sl: "initialSlots {} \<lparr>title = ''A'', items = [dup_x], isRestored = False\<rparr> = [None]"
    by (simp add: initialSlots_def dup_x_def plain_item_def)
  have own: "filter (\<lambda>item. \<not> isStatic item \<and> id_str item \<notin> itemsInSlots [None]) [dup_x] = [dup_x]"
    by (simp add: itemsInSlots_def list_of_slot_def dup_x_def plain_item_def)
  show ?thesis
    by (simp add: startSession_def h d prefilled_dup sl intruders_dup Let_def itemsInSlots_def
        list_of_slot_def)
       (simp add: gs_dup_def dup_x_def plain_item_def)
qed

lemma run_dup:
  "run [OpenCard 0 zero_rand id, ClickPill dup_y, ClickDropZone 0] (initialView gs_dup)
     = Inr view_dup_won"
  apply (simp add: handleEvent_def initialView_def session_dup Let_def)
  apply (simp add: gs_dup_def view_dup_won_def dup_x_def dup_y_def plain_item_def
      itemsInSlots_def list_of_slot_def drawnAsBlock_def truthy_def checkWinCondition_def
      isPerfect_def isSlotCorrect_def nth_opt_def)
  done


text \<open>
  C2, as amended. In every state of the game whose groups are those of a parsed document
  (whatever their \<open>isRestored\<close> flags), for the group of the session and any contents of
  its slots (as many slots as the group has fragments): the test of \<open>checkWinCondition\<close>
  is true if and only if \<open>isSlotCorrect\<close> holds at every index, that is, every slot \<open>i\<close>
  holds a fragment that records the index \<open>i\<close> and the title of the group, or that shares
  the \<open>flexGroupId\<close> of the group's fragment at \<open>i\<close>. Among the fragments of the document
  the first alternative holds for the fragment at index \<open>i\<close> of every group that has the
  title of the session's group: for the original fragment, and also for a fragment of
  another group with the same title. When the test is true \<open>checkWinCondition\<close> sets the
  group's \<open>isRestored\<close> flag and schedules the transition; otherwise it changes nothing.
\<close>

theorem checkWinCondition_spec:
  assumes "parseMarkdownToGame rnd content fName fPath = Inr gs"
    and "same_document (headings gs) (headings (vstate v))"
    and "a < length (headings (vstate v))"
    and "length (slots (vstate v)) = length (items (headings (vstate v) ! a))"
  shows "isPerfect (headings (vstate v) ! a) (slots (vstate v))
           = Inr (\<forall>i<length (slots (vstate v)).
                    isSlotCorrect (slots (vstate v) ! i) i (headings (vstate v) ! a) = Inr True)
         \<and> (\<forall>i<length (slots (vstate v)).
               isSlotCorrect (slots (vstate v) ! i) i (headings (vstate v) ! a) = Inr True
               \<longleftrightarrow> (\<exists>it. slots (vstate v) ! i = Some it
                     \<and> ((originalIndex it = i \<and> originalHeading it = title (headings (vstate v) ! a))
                        \<or> (flexGroupId (items (headings (vstate v) ! a) ! i) \<noteq> None
                           \<and> flexGroupId it = flexGroupId (items (headings (vstate v) ! a) ! i)))))
         \<and> (\<forall>b<length (headings (vstate v)). \<forall>j<length (items (headings (vstate v) ! b)). \<forall>i.
               originalIndex (items (headings (vstate v) ! b) ! j) = i
               \<and> originalHeading (items (headings (vstate v) ! b) ! j) = title (headings (vstate v) ! a)
               \<longleftrightarrow> j = i \<and> title (headings (vstate v) ! b) = title (headings (vstate v) ! a))
         \<and> (\<exists>v'. checkWinCondition a v = Inr v'
               \<and> (if \<forall>i<length (slots (vstate v)).
                        isSlotCorrect (slots (vstate v) ! i) i (headings (vstate v) ! a) = Inr True
                  then v' = v\<lparr>vstate := (vstate v)\<lparr>headings :=
                                 (headings (vstate v))[a := (headings (vstate v) ! a)
                                                              \<lparr>isRestored := True\<rparr>]\<rparr>,
                              pendingTimers := Suc (pendingTimers v)\<rparr>
                       \<and> isRestored (headings (vstate v') ! a)
                  else v' = v))"
proof -
  let ?hs = "headings (vstate v)"
  let ?g = "?hs ! a" and ?sl = "slots (vstate v)"
  let ?win = "v\<lparr>vstate := (vstate v)\<lparr>headings := ?hs[a := ?g\<lparr>isRestored := True\<rparr>]\<rparr>,
                pendingTimers := Suc (pendingTimers v)\<rparr>"
  have ok: "heading_ok rnd (?hs ! b)" if "b < length ?hs" for b
    using assms(1,2) that by (rule same_document_heading_ok)
  have perfect: "isPerfect ?g ?sl = Inr (\<forall>i<length ?sl. isSlotCorrect (?sl ! i) i ?g = Inr True)"
    by (rule isPerfect_in_range) (simp add: assms(4))
  have slot: "\<forall>i<length ?sl. isSlotCorrect (?sl ! i) i ?g = Inr True
                \<longleftrightarrow> (\<exists>it. ?sl ! i = Some it
                      \<and> ((originalIndex it = i \<and> originalHeading it = title ?g)
                         \<or> (flexGroupId (items ?g ! i) \<noteq> None
                            \<and> flexGroupId it = flexGroupId (items ?g ! i))))"
  proof (intro allI impI)
    fix i
    assume "i < length ?sl"
    with assms(4) have "i < length (items ?g)" by simp
    from heading_ok_slot [OF ok [OF assms(3)] this, of "?sl ! i"]
    show "isSlotCorrect (?sl ! i) i ?g = Inr True
                \<longleftrightarrow> (\<exists>it. ?sl ! i = Some it
                      \<and> ((originalIndex it = i \<and> originalHeading it = title ?g)
                         \<or> (flexGroupId (items ?g ! i) \<noteq> None
                            \<and> flexGroupId it = flexGroupId (items ?g ! i))))"
      by (cases "?sl ! i") simp_all
  qed
  have exact: "\<forall>b<length ?hs. \<forall>j<length (items (?hs ! b)). \<forall>i.
               originalIndex (items (?hs ! b) ! j) = i
               \<and> originalHeading (items (?hs ! b) ! j) = title ?g
               \<longleftrightarrow> j = i \<and> title (?hs ! b) = title ?g"
    using heading_ok_origin [OF ok] by auto
  have "\<exists>v'. checkWinCondition a v = Inr v'
               \<and> (if \<forall>i<length ?sl. isSlotCorrect (?sl ! i) i ?g = Inr True
                  then v' = ?win \<and> isRestored (headings (vstate v') ! a)
                  else v' = v)"
  proof (cases "\<forall>i<length ?sl. isSlotCorrect (?sl ! i) i ?g = Inr True")
    case True
    with perfect have "isPerfect ?g ?sl = Inr True" by simp
    with assms(3) have "checkWinCondition a v = Inr ?win"
      by (simp add: checkWinCondition_def nth_opt_def)
    moreover have r: "isRestored (headings (vstate ?win) ! a)"
      using assms(3) by simp
    have "if \<forall>i<length ?sl. isSlotCorrect (?sl ! i) i ?g = Inr True
          then ?win = ?win \<and> isRestored (headings (vstate ?win) ! a)
          else ?win = v"
      unfolding if_P [OF True] by (intro conjI refl r)
    ultimately show ?thesis by blast
  next
    case False
    with perfect have "isPerfect ?g ?sl = Inr False" by simp
    with assms(3) have "checkWinCondition a v = Inr v"
      by (simp add: checkWinCondition_def nth_opt_def)
    then show ?thesis
      by (intro exI [of _ v] conjI) (simp_all only: if_not_P [OF False])
  qed
  with perfect slot exact show ?thesis by blast
qed

theorem checkWinCondition_spec_witness:
  "parseMarkdownToGame ex_rnd doc_lists ''notes'' ''notes.md'' = Inr gs_lists
   \<and> same_document (headings gs_lists) (headings (vstate view_second))
   \<and> isRestored (headings (vstate view_second) ! 1)
   \<and> 0 < length (headings (vstate view_second))
   \<and> length (slots (vstate view_second)) = length (items (headings (vstate view_second) ! 0))
   \<and> isPerfect (headings (vstate view_second) ! 0) (slots (vstate view_second)) = Inr True
   \<and> (\<exists>v'. checkWinCondition 0 view_second = Inr v' \<and> isRestored (headings (vstate v') ! 0)
          \<and> pendingTimers v' = 1)"
proof -
  let ?g = "headings (vstate view_second) ! 0" and ?sl = "slots (vstate view_second)"
  have h: "same_document (headings gs_lists) (headings (vstate view_second))"
    by (simp add: same_document_def view_second_def gs_lists_won_def gs_lists_def)
  have w: "isRestored (headings (vstate view_second) ! 1)"
    by (simp add: view_second_def gs_lists_won_def)
  have a: "0 < length (headings (vstate view_second))"
    by (simp add: view_second_def gs_lists_won_def)
  have l: "length ?sl = length (items ?g)"
    by (simp add: view_second_def gs_lists_won_def group_A_def)
  note spec = checkWinCondition_spec [OF parse_doc_lists h a l]
  have all: "\<forall>i<length ?sl. isSlotCorrect (?sl ! i) i ?g = Inr True"
  proof (intro allI impI)
    fix i
    assume "i < length ?sl"
    then have "i = 0 \<or> i = 1" by (auto simp: view_second_def)
    then show "isSlotCorrect (?sl ! i) i ?g = Inr True"
      by (elim disjE)
         (simp_all add: view_second_def gs_lists_won_def group_A_def item_x_def item_y_def
            isSlotCorrect_def nth_opt_def truthy_def)
  qed
  from spec have "isPerfect ?g ?sl = Inr (\<forall>i<length ?sl. isSlotCorrect (?sl ! i) i ?g = Inr True)"
    by (rule conjunct1)
  with all have p: "isPerfect ?g ?sl = Inr True" by simp
  from spec obtain v' where v': "checkWinCondition 0 view_second = Inr v'"
    and "if \<forall>i<length ?sl. isSlotCorrect (?sl ! i) i ?g = Inr True
         then v' = view_second\<lparr>vstate := (vstate view_second)\<lparr>headings :=
                                 (headings (vstate view_second))[0 := ?g\<lparr>isRestored := True\<rparr>]\<rparr>,
                              pendingTimers := Suc (pendingTimers view_second)\<rparr>
              \<and> isRestored (headings (vstate v') ! 0)
         else v' = view_second"
    by blast
  then have "v' = view_second\<lparr>vstate := (vstate view_second)\<lparr>headings :=
                                 (headings (vstate view_second))[0 := ?g\<lparr>isRestored := True\<rparr>]\<rparr>,
                              pendingTimers := Suc (pendingTimers view_second)\<rparr>
              \<and> isRestored (headings (vstate v') ! 0)"
    unfolding if_P [OF all] by blast
  then have eq: "v' = view_second\<lparr>vstate := (vstate view_second)\<lparr>headings :=
                                 (headings (vstate view_second))[0 := ?g\<lparr>isRestored := True\<rparr>]\<rparr>,
                              pendingTimers := Suc (pendingTimers view_second)\<rparr>"
    and r: "isRestored (headings (vstate v') ! 0)"
    by blast+
  from arg_cong [OF eq, of pendingTimers] have "pendingTimers v' = 1"
    by (simp add: view_second_def)
  with r v' have "\<exists>v'. checkWinCondition 0 view_second = Inr v' \<and> isRestored (headings (vstate v') ! 0)
                  \<and> pendingTimers v' = 1"
    by blast
  with parse_doc_lists h w a l p show ?thesis by blast
qed

text \<open>
  C2 as stated fails: in the document with two groups titled \<^verbatim>\<open>A\<close> the session on the
  first group offers the fragment \<^verbatim>\<open>y\<close> of the second group as a decoy; it is not the
  original fragment \<^verbatim>\<open>x\<close> of slot 0 and neither has a \<open>flexGroupId\<close>, but with \<^verbatim>\<open>y\<close> in
  slot 0 the win condition holds and the group is marked as restored.
\<close>

theorem checkWinCondition_spec_counterexample:
  "parseMarkdownToGame ex_rnd doc_dup ''notes'' ''notes.md'' = Inr gs_dup
   \<and> items (headings gs_dup ! 0) = [dup_x]
   \<and> dup_y \<noteq> dup_x \<and> flexGroupId dup_x = None \<and> flexGroupId dup_y = None
   \<and> isPerfect (headings gs_dup ! 0) [Some dup_y] = Inr True
   \<and> run [OpenCard 0 zero_rand id, ClickPill dup_y, ClickDropZone 0] (initialView gs_dup)
       = Inr view_dup_won
   \<and> slots (vstate view_dup_won) = [Some dup_y]
   \<and> isRestored (headings (vstate view_dup_won) ! 0)"
  using parse_doc_dup run_dup
  by (simp add: gs_dup_def dup_x_def dup_y_def plain_item_def isPerfect_def isSlotCorrect_def
      view_dup_won_def)

section \<open>Lines that look like a table, and totality\<close>

subsection \<open>The line of every fragment\<close>

definition lines_upto :: "string list \<Rightarrow> nat \<Rightarrow> nat list" where
  "lines_upto lines i = filter (\<lambda>k. makes_fragment (lines ! k)) [0..<i]"

lemma fragment_lines_upto: "fragment_lines lines = lines_upto lines (length lines)"
  by (simp add: fragment_lines_def lines_upto_def)

lemma lines_upto_less: "k \<in> set (lines_upto lines i) \<Longrightarrow> k < i"
  by (simp add: lines_upto_def)

lemma lines_upto_skip:
  "\<not> makes_fragment (lines ! i) \<Longrightarrow> lines_upto lines (Suc i) = lines_upto lines i"
  by (simp add: lines_upto_def)

lemma lines_upto_append:
  assumes "i \<le> i'" and "\<forall>k. i \<le> k \<and> k < i' \<longrightarrow> makes_fragment (lines ! k)"
  shows "lines_upto lines i' = lines_upto lines i @ [i..<i']"
proof -
  from assms(1) have "[0..<i'] = [0..<i] @ [i..<i']"
    by (metis le_add_diff_inverse upt_add_eq_append zero_le)
  moreover have "filter (\<lambda>k. makes_fragment (lines ! k)) [i..<i'] = [i..<i']"
    using assms(2) by (simp add: filter_id_conv)
  ultimately show ?thesis by (simp add: lines_upto_def)
qed

lemma rows_extent_nth:
  assumes "rows_extent P lines i i'" and "i \<le> k" and "k < i'"
  shows "P (lines ! k)"
proof -
  from assms(1) have le: "i' \<le> length lines"
    and all: "list_all P (take (i' - i) (drop i lines))"
    by (simp_all add: rows_extent_def)
  from assms(2,3) le have "k - i < length (take (i' - i) (drop i lines))" by simp
  with all have "P (take (i' - i) (drop i lines) ! (k - i))" by (simp add: list_all_length)
  with assms(2,3) le show ?thesis by simp
qed

lemma row_line_fragment:
  assumes "is_row l"
  shows "makes_fragment l"
proof -
  from assms have "l \<noteq> []" by (auto simp: is_row_def startsWith_def)
  moreover have "headingMatch l = None"
  proof (cases "headingMatch l")
    case (Some x)
    from heading_line(2) [OF Some] assms show ?thesis by (simp add: is_row_def)
  qed simp
  ultimately show ?thesis by (simp add: makes_fragment_def)
qed

lemma quote_line_fragment:
  assumes "is_quote l"
  shows "makes_fragment l"
proof -
  from assms have "l \<noteq> []" by (auto simp: is_quote_def startsWith_def)
  moreover have "headingMatch l = None"
  proof (cases "headingMatch l")
    case (Some x)
    from heading_line(3) [OF Some] assms show ?thesis by (simp add: is_quote_def)
  qed simp
  ultimately show ?thesis by (simp add: makes_fragment_def)
qed

lemma separator_line_fragment:
  assumes "separatorMatch (trim l)"
  shows "makes_fragment l"
proof -
  from assms have "l \<noteq> []" using separatorMatch_Nil by auto
  moreover have "headingMatch l = None"
  proof (cases "headingMatch l")
    case (Some x)
    from heading_line(5) [OF Some] assms show ?thesis by simp
  qed simp
  ultimately show ?thesis by (simp add: makes_fragment_def)
qed

lemma opens_callout_quote: "opens_callout lines n \<Longrightarrow> is_quote (lines ! n)"
  by (cases "trim (lines ! n)") (auto simp: opens_callout_def is_quote_def startsWith_def)

lemma row_not_quote: "is_row l \<Longrightarrow> \<not> is_quote l"
  by (cases "trim l") (auto simp: is_row_def is_quote_def startsWith_def)

lemma opens_table_next:
  assumes "opens_table lines n"
  shows "Suc n < length lines" and "separatorMatch (trim (lines ! Suc n))"
proof -
  from assms have sep: "separatorMatch (nextLine lines n)" by (simp add: opens_table_def)
  then show "Suc n < length lines" by (rule nextLine_Some(1))
  with sep show "separatorMatch (trim (lines ! Suc n))" by (simp add: nextLine_def nth_opt_def)
qed

lemma table_line:
  assumes "table_at lines n m" and "n \<le> k" and "k < n + m"
  shows "k = n \<and> is_row (lines ! k) \<or> k = Suc n \<and> separatorMatch (trim (lines ! k))
         \<or> Suc n < k \<and> is_row (lines ! k)"
proof -
  from assms(1) have o: "opens_table lines n" and ext: "rows_extent is_row lines (n + 2) (n + m)"
    by (simp_all add: table_at_def)
  consider "k = n" | "k = Suc n" | "n + 2 \<le> k" using assms(2) by linarith
  then show ?thesis
  proof cases
    case 1
    with o show ?thesis by (simp add: opens_table_def)
  next
    case 2
    with opens_table_next(2) [OF o] show ?thesis by simp
  next
    case 3
    from rows_extent_nth [OF ext 3 assms(3)] 3 show ?thesis by simp
  qed
qed

lemma callout_line:
  assumes "callout_at lines n m" and "n \<le> k" and "k < n + m"
  shows "is_quote (lines ! k)"
proof (cases "k = n")
  case True
  with assms(1) show ?thesis by (simp add: callout_at_def opens_callout_quote)
next
  case False
  with assms(2) have "Suc n \<le> k" by simp
  moreover from assms(1) have "rows_extent is_quote lines (Suc n) (n + m)"
    by (simp add: callout_at_def)
  ultimately show ?thesis using assms(3) by (intro rows_extent_nth)
qed

lemma block_line_fragment:
  assumes "block_at lines b n m" and "n \<le> k" and "k < n + m"
  shows "makes_fragment (lines ! k)"
  using assms table_line [of lines n m k] callout_line [of lines n m k]
  by (auto simp: block_at_def row_line_fragment quote_line_fragment separator_line_fragment)

definition frag_ok :: "string list \<Rightarrow> nat \<Rightarrow> (nat \<times> GameItem) list \<Rightarrow> nat \<Rightarrow> GameItem \<Rightarrow> bool" where
  "frag_ok lines i Z k f \<longleftrightarrow>
     text_str f = lines ! k
     \<and> (blockId f = None \<longrightarrow>
          \<not> isStatic f \<and> (isSubHeading f \<longleftrightarrow> headingMatch (lines ! k) \<noteq> None)
          \<and> \<not> opens_table lines k \<and> \<not> opens_callout lines k)
     \<and> (\<forall>b. blockId f = Some b \<longrightarrow>
          \<not> isSubHeading f
          \<and> (\<exists>n m. block_at lines b n m \<and> n \<le> k \<and> k < n + m \<and> n + m \<le> i
                 \<and> (\<forall>(k', f')\<in>set Z. n \<le> k' \<and> k' < n + m \<longrightarrow> blockId f' = Some b)))"

definition lm_inv :: "string list \<Rightarrow> nat \<Rightarrow> GameItem list \<Rightarrow> bool" where
  "lm_inv lines i F \<longleftrightarrow>
     i \<le> length lines \<and> length F = length (lines_upto lines i)
     \<and> (\<forall>(k, f)\<in>set (zip (lines_upto lines i) F). frag_ok lines i (zip (lines_upto lines i) F) k f)"

lemma frag_ok_mono:
  assumes "frag_ok lines i Z k f" and "i \<le> i'"
  shows "frag_ok lines i' Z k f"
  using assms unfolding frag_ok_def by (meson le_trans)

lemma lm_inv_skip:
  assumes "lm_inv lines i F" and "\<not> makes_fragment (lines ! i)" and "i < length lines"
  shows "lm_inv lines (Suc i) F"
  using assms unfolding lm_inv_def lines_upto_skip [OF assms(2)]
  by (auto intro: frag_ok_mono)

lemma zip_upt_new:
  assumes "(k, f) \<in> set (zip [i..<i'] new)" and "map text_str new = take (i' - i) (drop i lines)"
    and "i' \<le> length lines"
  shows "i \<le> k" and "k < i'" and "f \<in> set new" and "text_str f = lines ! k"
proof -
  from assms(1) obtain n where n: "n < length [i..<i']" "n < length new"
    and k: "[i..<i'] ! n = k" and f: "new ! n = f"
    by (auto simp: in_set_zip)
  from n(1) k have kk: "k = i + n" by simp
  with n(1) show "i \<le> k" and "k < i'" by simp_all
  from n(2) f show "f \<in> set new" by auto
  from n(2) f have "text_str f = map text_str new ! n" by simp
  also have "\<dots> = take (i' - i) (drop i lines) ! n" by (simp only: assms(2))
  also have "\<dots> = lines ! k" using n(1) assms(3) kk by simp
  finally show "text_str f = lines ! k" .
qed

lemma lm_inv_append:
  assumes inv: "lm_inv lines i F" and app: "appended lines i i' new"
    and mf: "makes_fragment (lines ! i)"
  shows "lm_inv lines i' (F @ new)"
proof -
  let ?L = "lines_upto lines i"
  let ?Z = "zip ?L F" and ?Zn = "zip [i..<i'] new"
  from app have lt: "i < i'" and up: "i' \<le> length lines"
    and tx: "map text_str new = take (i' - i) (drop i lines)"
    by (simp_all add: appended_def)
  from inv have len: "length F = length ?L"
    and old: "\<forall>(k, f)\<in>set ?Z. frag_ok lines i ?Z k f"
    by (simp_all add: lm_inv_def)
  have frag: "\<forall>k. i \<le> k \<and> k < i' \<longrightarrow> makes_fragment (lines ! k)"
  proof (intro allI impI)
    fix k
    assume k: "i \<le> k \<and> k < i'"
    from app consider "i' = Suc i" | b where "block_at lines b i (i' - i)"
      unfolding appended_def by blast
    then show "makes_fragment (lines ! k)"
    proof cases
      case 1
      with k have "k = i" by simp
      with mf show ?thesis by simp
    next
      case 2
      from k lt have "k < i + (i' - i)" by simp
      with 2 k show ?thesis using block_line_fragment by blast
    qed
  qed
  from lt have L': "lines_upto lines i' = ?L @ [i..<i']"
    using frag by (intro lines_upto_append) simp_all
  have lnew: "length new = i' - i" using app by (rule appended_length)
  have Z': "zip (lines_upto lines i') (F @ new) = ?Z @ ?Zn"
    unfolding L' using len by (simp add: zip_append)
  have oldk: "k < i" if "(k, f) \<in> set ?Z" for k f
    using that lines_upto_less by (meson set_zip_leftD)
  have 1: "frag_ok lines i' (?Z @ ?Zn) k f" if m: "(k, f) \<in> set ?Z" for k f
  proof -
    from old m have ok: "frag_ok lines i ?Z k f" by blast
    have "\<exists>n m. block_at lines b n m \<and> n \<le> k \<and> k < n + m \<and> n + m \<le> i'
                 \<and> (\<forall>(k', f')\<in>set (?Z @ ?Zn). n \<le> k' \<and> k' < n + m \<longrightarrow> blockId f' = Some b)"
      if b: "blockId f = Some b" for b
    proof -
      from ok b obtain n m where nm: "block_at lines b n m" "n \<le> k" "k < n + m" "n + m \<le> i"
        and cl: "\<forall>(k', f')\<in>set ?Z. n \<le> k' \<and> k' < n + m \<longrightarrow> blockId f' = Some b"
        unfolding frag_ok_def by blast
      have "\<forall>(k', f')\<in>set (?Z @ ?Zn). n \<le> k' \<and> k' < n + m \<longrightarrow> blockId f' = Some b"
      proof (intro ballI, clarify)
        fix k' f'
        assume in': "(k', f') \<in> set (?Z @ ?Zn)" and r: "n \<le> k'" "k' < n + m"
        show "blockId f' = Some b"
        proof (cases "(k', f') \<in> set ?Z")
          case True
          with cl r show ?thesis by blast
        next
          case False
          with in' have "(k', f') \<in> set ?Zn" by simp
          from zip_upt_new(1) [OF this tx up] r nm(4) show ?thesis by simp
        qed
      qed
      with nm lt show ?thesis by (meson le_trans less_imp_le)
    qed
    with ok show ?thesis unfolding frag_ok_def by blast
  qed
  have 2: "frag_ok lines i' (?Z @ ?Zn) k f" if m: "(k, f) \<in> set ?Zn" for k f
  proof -
    note z = zip_upt_new [OF m tx up]
    from app consider
        (ordinary) "i' = Suc i" "\<not> opens_table lines i" "\<not> opens_callout lines i"
          "\<forall>f\<in>set new. blockId f = None \<and> \<not> isStatic f
                \<and> (isSubHeading f \<longleftrightarrow> headingMatch (lines ! i) \<noteq> None)"
      | (block) b0 where "block_at lines b0 i (i' - i)"
          "\<forall>f\<in>set new. blockId f = Some b0 \<and> \<not> isSubHeading f"
      unfolding appended_def by blast
    then show ?thesis
    proof cases
      case ordinary
      from ordinary(1) z(1,2) have "k = i" by simp
      with ordinary z(3,4) show ?thesis by (simp add: frag_ok_def)
    next
      case block
      from block(2) z(3) have bf: "blockId f = Some b0" "\<not> isSubHeading f" by blast+
      have cl: "\<forall>(k', f')\<in>set (?Z @ ?Zn). i \<le> k' \<and> k' < i + (i' - i) \<longrightarrow> blockId f' = Some b0"
      proof (intro ballI, clarify)
        fix k' f'
        assume in': "(k', f') \<in> set (?Z @ ?Zn)" and r: "i \<le> k'"
        show "blockId f' = Some b0"
        proof (cases "(k', f') \<in> set ?Z")
          case True
          from oldk [OF this] r show ?thesis by simp
        next
          case False
          with in' have "(k', f') \<in> set ?Zn" by simp
          from zip_upt_new(3) [OF this tx up] block(2) show ?thesis by blast
        qed
      qed
      from lt have "i + (i' - i) = i'" by simp
      with block(1) z(1,2) cl
      have "\<exists>n m. block_at lines b0 n m \<and> n \<le> k \<and> k < n + m \<and> n + m \<le> i'
                 \<and> (\<forall>(k', f')\<in>set (?Z @ ?Zn). n \<le> k' \<and> k' < n + m \<longrightarrow> blockId f' = Some b0)"
        by (intro exI [of _ i] exI [of _ "i' - i"]) simp
      with bf z(4) show ?thesis by (simp add: frag_ok_def)
    qed
  qed
  have "\<forall>(k, f)\<in>set (?Z @ ?Zn). frag_ok lines i' (?Z @ ?Zn) k f"
    using 1 2 by auto
  with up len lnew show ?thesis
    unfolding lm_inv_def Z' by (simp add: L')
qed

definition fragment_of :: "string list \<Rightarrow> GameItem list \<Rightarrow> nat \<Rightarrow> GameItem option" where
  "fragment_of lines F k = map_of (zip (fragment_lines lines) F) k"

definition in_table :: "string list \<Rightarrow> GameItem list \<Rightarrow> nat \<Rightarrow> bool" where
  "in_table lines F k \<longleftrightarrow>
     (case fragment_of lines F k of
        None \<Rightarrow> False
      | Some f \<Rightarrow> (case blockId f of None \<Rightarrow> False | Some b \<Rightarrow> startsWith b ''table-''))"

lemma all_items_snoc [simp]: "all_items (hs @ [h]) = all_items hs @ items h"
  by (simp add: all_items_def)

lemma parse_step_lm_inv:
  assumes "lm_inv lines i (all_items (p_headings st @ [p_current st]))" and "i < length lines"
    and "parse_step rnd lines i st = Inr (i', st')"
  shows "lm_inv lines i' (all_items (p_headings st' @ [p_current st']))"
proof -
  from parse_step_summary [OF assms(2,3)] consider
      (same) "\<not> makes_fragment (lines ! i)" "i' = Suc i" "st' = st"
    | (closed) "\<not> makes_fragment (lines ! i)" "i' = Suc i" "items (p_current st') = []"
        "p_headings st' = (if items (p_current st) \<noteq> []
                            then p_headings st @ [p_current st] else p_headings st)"
    | (more) new where "makes_fragment (lines ! i)" "p_headings st' = p_headings st"
        "items (p_current st') = items (p_current st) @ new" "appended lines i i' new"
    by blast
  then show ?thesis
  proof cases
    case same
    with lm_inv_skip [OF assms(1) same(1) assms(2)] show ?thesis by simp
  next
    case closed
    then have "all_items (p_headings st' @ [p_current st']) = all_items (p_headings st @ [p_current st])"
      by simp
    with lm_inv_skip [OF assms(1) closed(1) assms(2)] closed(2) show ?thesis by simp
  next
    case more
    then have "all_items (p_headings st' @ [p_current st'])
                 = all_items (p_headings st @ [p_current st]) @ new"
      by simp
    with lm_inv_append [OF assms(1) more(4) more(1)] show ?thesis by simp
  qed
qed

lemma parse_loop_lm_inv:
  assumes "parse_loop rnd lines 0 parse_init = Inr st"
  shows "lm_inv lines (length lines) (all_items (p_headings st @ [p_current st]))"
proof -
  let ?I = "\<lambda>j s. lm_inv lines j (all_items (p_headings s @ [p_current s]))"
  have "\<exists>j. length lines \<le> j \<and> ?I j st"
    using assms
  proof (rule parse_loop_invariant [where I = ?I])
    show "?I 0 parse_init"
      by (simp add: lm_inv_def lines_upto_def parse_init_def all_items_def)
  next
    fix j s j' s'
    assume "?I j s" "j < length lines" "parse_step rnd lines j s = Inr (j', s')"
    then show "?I j' s'" by (rule parse_step_lm_inv)
  qed
  then obtain j where "length lines \<le> j" and inv: "?I j st" by blast
  moreover from inv have "j \<le> length lines" by (simp add: lm_inv_def)
  ultimately have "j = length lines" by simp
  with inv show ?thesis by simp
qed

lemma frag_ok_unflex:
  assumes "frag_ok lines i (zip L (map unflex F)) k (unflex f)"
  shows "frag_ok lines i (zip L F) k f"
proof -
  have "(k', unflex f') \<in> set (zip L (map unflex F))" if "(k', f') \<in> set (zip L F)" for k' f'
    using that by (auto simp: zip_map2 intro: rev_image_eqI)
  then have "\<forall>(k', f')\<in>set (zip L F). n \<le> k' \<and> k' < n + m \<longrightarrow> blockId f' = Some b"
    if "\<forall>(k', f')\<in>set (zip L (map unflex F)). n \<le> k' \<and> k' < n + m \<longrightarrow> blockId f' = Some b"
    for n m b
    using that by fastforce
  with assms show ?thesis unfolding frag_ok_def unflex_fields by blast
qed

lemma lm_inv_unflex:
  assumes "lm_inv lines i (map unflex F)"
  shows "lm_inv lines i F"
proof -
  have "frag_ok lines i (zip (lines_upto lines i) F) k f"
    if "(k, f) \<in> set (zip (lines_upto lines i) F)" for k f
  proof -
    from that have "(k, unflex f) \<in> set (zip (lines_upto lines i) (map unflex F))"
      by (auto simp: zip_map2 intro: rev_image_eqI)
    with assms have "frag_ok lines i (zip (lines_upto lines i) (map unflex F)) k (unflex f)"
      unfolding lm_inv_def by blast
    then show ?thesis by (rule frag_ok_unflex)
  qed
  with assms show ?thesis unfolding lm_inv_def by auto
qed

lemma all_items_unflex:
  assumes "map (\<lambda>h. map unflex (items h)) hs = map items hs0"
  shows "map unflex (all_items hs) = all_items hs0"
proof -
  have "map unflex (all_items hs) = concat (map (\<lambda>h. map unflex (items h)) hs)"
    by (simp add: all_items_def map_concat comp_def)
  with assms show ?thesis by (simp add: all_items_def)
qed

lemma parsed_lm_inv:
  assumes "parseMarkdownToGame rnd content fName fPath = Inr gs"
  shows "lm_inv (split_lines content) (length (split_lines content)) (all_items (headings gs))"
proof -
  from assms obtain st
    where loop: "parse_loop rnd (split_lines content) 0 parse_init = Inr st"
      and un: "map (\<lambda>h. map unflex (items h)) (headings gs) = map items (p_headings st @ [p_current st])"
    by (rule parsed_unflex)
  from parse_loop_lm_inv [OF loop] all_items_unflex [OF un]
  have "lm_inv (split_lines content) (length (split_lines content)) (map unflex (all_items (headings gs)))"
    by simp
  then show ?thesis by (rule lm_inv_unflex)
qed

text \<open>What the invariant says of the parsed document.\<close>

lemma distinct_fragment_lines: "distinct (fragment_lines lines)"
  by (simp add: fragment_lines_def)

lemma fragment_line_mem:
  "k \<in> set (fragment_lines lines) \<longleftrightarrow> k < length lines \<and> makes_fragment (lines ! k)"
  by (auto simp: fragment_lines_def)

lemma fragment_of_Some:
  assumes "length F = length (fragment_lines lines)"
  shows "fragment_of lines F k = Some f \<longleftrightarrow> (k, f) \<in> set (zip (fragment_lines lines) F)"
proof -
  have "map fst (zip (fragment_lines lines) F) = fragment_lines lines"
    using assms by (simp add: map_fst_zip)
  then have "distinct (map fst (zip (fragment_lines lines) F))"
    by (simp add: distinct_fragment_lines)
  then show ?thesis unfolding fragment_of_def by (rule map_of_eq_Some_iff)
qed

lemma fragment_of_exists:
  assumes "length F = length (fragment_lines lines)" and "k < length lines"
    and "makes_fragment (lines ! k)"
  shows "\<exists>f. fragment_of lines F k = Some f"
proof -
  from assms(2,3) have "k \<in> set (fragment_lines lines)" by (simp add: fragment_line_mem)
  then obtain p where "p < length (fragment_lines lines)" and "fragment_lines lines ! p = k"
    by (auto simp: in_set_conv_nth)
  with assms(1) have "(k, F ! p) \<in> set (zip (fragment_lines lines) F)"
    by (auto simp: in_set_zip)
  then show ?thesis using fragment_of_Some [OF assms(1)] by blast
qed

lemma parsed_fragments:
  assumes "parseMarkdownToGame rnd content fName fPath = Inr gs"
  shows "length (all_items (headings gs)) = length (fragment_lines (split_lines content))"
    and "\<forall>(k, f)\<in>set (zip (fragment_lines (split_lines content)) (all_items (headings gs))).
           frag_ok (split_lines content) (length (split_lines content))
             (zip (fragment_lines (split_lines content)) (all_items (headings gs))) k f"
  using parsed_lm_inv [OF assms] by (simp_all add: lm_inv_def fragment_lines_upto)

lemma parsed_texts:
  assumes "parseMarkdownToGame rnd content fName fPath = Inr gs"
  shows "map text_str (all_items (headings gs))
           = map ((!) (split_lines content)) (fragment_lines (split_lines content))"
proof (rule nth_equalityI)
  show "length (map text_str (all_items (headings gs)))
          = length (map ((!) (split_lines content)) (fragment_lines (split_lines content)))"
    using parsed_fragments(1) [OF assms] by simp
next
  fix p
  assume "p < length (map text_str (all_items (headings gs)))"
  then have p: "p < length (all_items (headings gs))"
    "p < length (fragment_lines (split_lines content))"
    using parsed_fragments(1) [OF assms] by simp_all
  then have "(fragment_lines (split_lines content) ! p, all_items (headings gs) ! p)
               \<in> set (zip (fragment_lines (split_lines content)) (all_items (headings gs)))"
    by (auto simp: in_set_zip)
  with parsed_fragments(2) [OF assms]
  have "text_str (all_items (headings gs) ! p)
          = split_lines content ! (fragment_lines (split_lines content) ! p)"
    unfolding frag_ok_def by blast
  with p show "map text_str (all_items (headings gs)) ! p
                 = map ((!) (split_lines content)) (fragment_lines (split_lines content)) ! p"
    by simp
qed

lemma count_list_notin: "x \<notin> set xs \<Longrightarrow> count_list xs x = 0"
  by (induction xs) auto

lemma count_list_distinct: "distinct xs \<Longrightarrow> x \<in> set xs \<Longrightarrow> count_list xs x = 1"
  by (induction xs) (auto simp: count_list_notin)

lemma table_id_not_callout: "''table-'' @ x \<noteq> ''callout-'' @ y"
  by simp

lemma block_at_table:
  assumes "block_at lines b n m" and "startsWith b ''table-''"
  shows "b = ''table-'' @ string_of_nat n" and "table_at lines n m"
  using assms by (auto simp: block_at_def startsWith_def)

lemma table_at_no_row_after:
  assumes "table_at lines n m" and "n + m < length lines"
  shows "\<not> is_row (lines ! (n + m))"
  using assms by (auto simp: table_at_def rows_extent_def)

text \<open>
  C8, as amended. Parsing returns a document for every input, and the fragments of the
  document, taken group after group, are the lines that are neither empty nor a heading of
  level 1 or 2, one fragment for each such line and in the order of the lines. A line that
  starts with \<^verbatim>\<open>|\<close> and is not followed by a separator row has exactly one fragment, which
  is no sub-heading, and the line opens no table: no fragment carries \<^verbatim>\<open>table-k\<close> for
  its number \<open>k\<close>. If the line before it belongs to a table, the line is consumed as the
  separator row or as a row of that table, which an earlier line \<open>n\<close> opened, and its
  fragment carries \<^verbatim>\<open>table-n\<close>; otherwise its fragment is an ordinary one: not static
  and without \<open>blockId\<close>.
\<close>

theorem pipe_line_ordinary:
  assumes "k < length (split_lines content)"
    and "startsWith (trim (split_lines content ! k)) ''|''"
    and "\<not> separatorMatch (nextLine (split_lines content) k)"
  shows "\<exists>gs f. parseMarkdownToGame rnd content fName fPath = Inr gs
           \<and> map text_str (all_items (headings gs))
               = map ((!) (split_lines content)) (fragment_lines (split_lines content))
           \<and> count_list (fragment_lines (split_lines content)) k = 1
           \<and> fragment_of (split_lines content) (all_items (headings gs)) k = Some f
           \<and> text_str f = split_lines content ! k \<and> \<not> isSubHeading f
           \<and> (\<forall>f'\<in>set (all_items (headings gs)). blockId f' \<noteq> Some (''table-'' @ string_of_nat k))
           \<and> (if 0 < k \<and> in_table (split_lines content) (all_items (headings gs)) (k - 1)
               then \<exists>n m. blockId f = Some (''table-'' @ string_of_nat n)
                      \<and> table_at (split_lines content) n m \<and> n < k \<and> k < n + m
               else blockId f = None \<and> \<not> isStatic f)"
proof -
  let ?lines = "split_lines content"
  obtain gs where parse: "parseMarkdownToGame rnd content fName fPath = Inr gs"
    using parse_returns by blast
  let ?F = "all_items (headings gs)"
  let ?L = "fragment_lines ?lines"
  let ?Z = "zip ?L ?F"
  note len = parsed_fragments(1) [OF parse]
  note oks = parsed_fragments(2) [OF parse]
  have row: "is_row (?lines ! k)" using assms(2) by (simp add: is_row_def)
  have notopen: "\<not> opens_table ?lines k" using assms(3) by (simp add: opens_table_def)
  have mf: "makes_fragment (?lines ! k)" using row by (rule row_line_fragment)
  have nohead: "headingMatch (?lines ! k) = None"
  proof (cases "headingMatch (?lines ! k)")
    case (Some x)
    from heading_line(2) [OF Some] assms(2) show ?thesis by blast
  qed simp
  from fragment_of_exists [OF len assms(1) mf]
  obtain f where f: "fragment_of ?lines ?F k = Some f" by blast
  then have fz: "(k, f) \<in> set ?Z" by (simp add: fragment_of_Some [OF len])
  with oks have ok: "frag_ok ?lines (length ?lines) ?Z k f" by blast
  have texts: "map text_str ?F = map ((!) ?lines) ?L" using parse by (rule parsed_texts)
  have once: "count_list ?L k = 1"
  proof -
    from assms(1) mf have "k \<in> set ?L" by (simp add: fragment_line_mem)
    then show ?thesis
      using distinct_fragment_lines [of ?lines] by (simp add: count_list_distinct)
  qed
  have tx: "text_str f = ?lines ! k" using ok by (simp add: frag_ok_def)
  have nosub: "\<not> isSubHeading f"
  proof (cases "blockId f")
    case None
    with ok nohead show ?thesis by (simp add: frag_ok_def)
  next
    case (Some b)
    with ok show ?thesis by (simp add: frag_ok_def)
  qed
  have nostart: "n \<noteq> k" if "table_at ?lines n m" for n m
    using that notopen by (auto simp: table_at_def)
  have notable: "\<forall>f'\<in>set ?F. blockId f' \<noteq> Some (''table-'' @ string_of_nat k)"
  proof
    fix f'
    assume "f' \<in> set ?F"
    then obtain p where p: "p < length ?F" and f': "?F ! p = f'" by (auto simp: in_set_conv_nth)
    with len have "(?L ! p, f') \<in> set ?Z" by (auto simp: in_set_zip)
    with oks have ok': "frag_ok ?lines (length ?lines) ?Z (?L ! p) f'" by blast
    show "blockId f' \<noteq> Some (''table-'' @ string_of_nat k)"
    proof
      assume "blockId f' = Some (''table-'' @ string_of_nat k)"
      with ok' obtain n m where "block_at ?lines (''table-'' @ string_of_nat k) n m"
        unfolding frag_ok_def by blast
      from block_at_table [OF this] have "n = k" and "table_at ?lines n m"
        by (auto simp: startsWith_def dest: string_of_nat_inj)
      with nostart show False by blast
    qed
  qed
  have block_k: "\<exists>n m. b = ''table-'' @ string_of_nat n \<and> table_at ?lines n m \<and> n < k \<and> k < n + m
                   \<and> (\<forall>(k', f')\<in>set ?Z. n \<le> k' \<and> k' < n + m \<longrightarrow> blockId f' = Some b)"
    if b: "blockId f = Some b" for b
  proof -
    from ok b obtain n m where at: "block_at ?lines b n m" and r: "n \<le> k" "k < n + m"
      and cl: "\<forall>(k', f')\<in>set ?Z. n \<le> k' \<and> k' < n + m \<longrightarrow> blockId f' = Some b"
      unfolding frag_ok_def by blast
    have "\<not> callout_at ?lines n m"
    proof
      assume "callout_at ?lines n m"
      from callout_line [OF this r] row show False by (simp add: row_not_quote)
    qed
    with at have t: "b = ''table-'' @ string_of_nat n" "table_at ?lines n m"
      by (auto simp: block_at_def)
    from nostart [OF t(2)] r(1) have "n < k" by simp
    with t r(2) cl show ?thesis by blast
  qed
  have last: "if 0 < k \<and> in_table ?lines ?F (k - 1)
              then \<exists>n m. blockId f = Some (''table-'' @ string_of_nat n)
                     \<and> table_at ?lines n m \<and> n < k \<and> k < n + m
              else blockId f = None \<and> \<not> isStatic f"
  proof (cases "0 < k \<and> in_table ?lines ?F (k - 1)")
    case True
    then obtain f1 b1 where f1: "fragment_of ?lines ?F (k - 1) = Some f1"
      and b1: "blockId f1 = Some b1" and tb: "startsWith b1 ''table-''"
      by (auto simp: in_table_def split: option.splits)
    from f1 have "(k - 1, f1) \<in> set ?Z" by (simp add: fragment_of_Some [OF len])
    with oks have "frag_ok ?lines (length ?lines) ?Z (k - 1) f1" by blast
    with b1 obtain n m where at: "block_at ?lines b1 n m" and r: "n \<le> k - 1" "k - 1 < n + m"
      and cl: "\<forall>(k', f')\<in>set ?Z. n \<le> k' \<and> k' < n + m \<longrightarrow> blockId f' = Some b1"
      unfolding frag_ok_def by blast
    note t = block_at_table [OF at tb]
    have "k \<noteq> n + m"
    proof
      assume "k = n + m"
      with table_at_no_row_after [OF t(2)] assms(1) row show False by simp
    qed
    moreover from True have "0 < k" by simp
    ultimately have range: "n < k" "k < n + m" using r by linarith+
    with cl fz have "blockId f = Some b1" by auto
    with t range have "\<exists>n m. blockId f = Some (''table-'' @ string_of_nat n)
                     \<and> table_at ?lines n m \<and> n < k \<and> k < n + m"
      by blast
    then show ?thesis unfolding if_P [OF True] .
  next
    case False
    have none: "blockId f = None"
    proof (cases "blockId f")
      case (Some b)
      from block_k [OF Some]
      obtain n m where t: "b = ''table-'' @ string_of_nat n" "table_at ?lines n m"
        and range: "n < k" "k < n + m"
        and cl: "\<forall>(k', f')\<in>set ?Z. n \<le> k' \<and> k' < n + m \<longrightarrow> blockId f' = Some b"
        by blast
      from t have at: "block_at ?lines b n m" by (simp add: block_at_def)
      from range have r1: "n \<le> k - 1" "k - 1 < n + m" by simp_all
      have "k - 1 < length ?lines" using assms(1) by simp
      from fragment_of_exists [OF len this block_line_fragment [OF at r1]]
      obtain f1 where f1: "fragment_of ?lines ?F (k - 1) = Some f1" by blast
      then have "(k - 1, f1) \<in> set ?Z" by (simp add: fragment_of_Some [OF len])
      with cl r1 have "blockId f1 = Some b" by auto
      with f1 t(1) have "in_table ?lines ?F (k - 1)" by (simp add: in_table_def startsWith_def)
      with range(1) False show ?thesis by simp
    qed simp
    with ok have "blockId f = None \<and> \<not> isStatic f" by (simp add: frag_ok_def)
    then show ?thesis unfolding if_not_P [OF False] .
  qed
  from parse texts once f tx nosub notable last show ?thesis by blast
qed

lemmas fragment_eval =
  fragment_of_def fragment_lines_def makes_fragment_def all_items_def in_table_def
  upt_rec_numeral

lemma fragment_pipe:
  "fragment_of (split_lines doc_pipe) (all_items (headings gs_pipe)) 0 = Some pipe_item"
  by (simp add: split_doc_pipe gs_pipe_def fragment_eval string_eval)

lemma fragment_table:
  "fragment_of (split_lines doc_table) (all_items (headings gs_table)) 2 = Some row_1"
  "in_table (split_lines doc_table) (all_items (headings gs_table)) (2 - 1)"
  by (simp_all add: split_doc_table fragment_eval string_eval table_defs)

theorem pipe_line_ordinary_witness:
  "0 < length (split_lines doc_pipe)
   \<and> startsWith (trim (split_lines doc_pipe ! 0)) ''|''
   \<and> \<not> separatorMatch (nextLine (split_lines doc_pipe) 0)
   \<and> parseMarkdownToGame ex_rnd doc_pipe ''notes'' ''notes.md'' = Inr gs_pipe
   \<and> fragment_of (split_lines doc_pipe) (all_items (headings gs_pipe)) 0 = Some pipe_item
   \<and> text_str pipe_item = ''| a |''
   \<and> \<not> isSubHeading pipe_item \<and> blockId pipe_item = None \<and> \<not> isStatic pipe_item
   \<and> 2 < length (split_lines doc_table)
   \<and> startsWith (trim (split_lines doc_table ! 2)) ''|''
   \<and> \<not> separatorMatch (nextLine (split_lines doc_table) 2)
   \<and> parseMarkdownToGame ex_rnd doc_table ''notes'' ''notes.md'' = Inr gs_table
   \<and> fragment_of (split_lines doc_table) (all_items (headings gs_table)) 2 = Some row_1
   \<and> in_table (split_lines doc_table) (all_items (headings gs_table)) (2 - 1)
   \<and> (\<exists>n m. blockId row_1 = Some (''table-'' @ string_of_nat n)
          \<and> table_at (split_lines doc_table) n m \<and> n < 2 \<and> 2 < n + m)"
proof -
  have p: "0 < length (split_lines doc_pipe)"
    "startsWith (trim (split_lines doc_pipe ! 0)) ''|''"
    "\<not> separatorMatch (nextLine (split_lines doc_pipe) 0)"
    by (simp_all add: split_doc_pipe string_eval)
  have t: "2 < length (split_lines doc_table)"
    "startsWith (trim (split_lines doc_table ! 2)) ''|''"
    "\<not> separatorMatch (nextLine (split_lines doc_table) 2)"
    by (simp_all add: split_doc_table lines_table_def string_eval)
  from pipe_line_ordinary [OF p, of ex_rnd "''notes''" "''notes.md''"]
  obtain gs f where "parseMarkdownToGame ex_rnd doc_pipe ''notes'' ''notes.md'' = Inr gs"
    and "fragment_of (split_lines doc_pipe) (all_items (headings gs)) 0 = Some f"
    and "text_str f = split_lines doc_pipe ! 0" and "\<not> isSubHeading f"
    and "if 0 < (0 :: nat) \<and> in_table (split_lines doc_pipe) (all_items (headings gs)) (0 - 1)
         then \<exists>n m. blockId f = Some (''table-'' @ string_of_nat n)
                \<and> table_at (split_lines doc_pipe) n m \<and> n < 0 \<and> 0 < n + m
         else blockId f = None \<and> \<not> isStatic f"
    by blast
  then have g: "gs = gs_pipe"
    and ff: "fragment_of (split_lines doc_pipe) (all_items (headings gs)) 0 = Some f"
    and fx: "text_str f = split_lines doc_pipe ! 0" "\<not> isSubHeading f"
      "blockId f = None \<and> \<not> isStatic f"
    by (simp_all add: parse_doc_pipe)
  from ff have "f = pipe_item" unfolding g fragment_pipe by simp
  with fx have pf: "text_str pipe_item = ''| a |''" "\<not> isSubHeading pipe_item"
    "blockId pipe_item = None" "\<not> isStatic pipe_item"
    by (simp_all add: split_doc_pipe)
  from pipe_line_ordinary [OF t, of ex_rnd "''notes''" "''notes.md''"]
  obtain gs' f' where "parseMarkdownToGame ex_rnd doc_table ''notes'' ''notes.md'' = Inr gs'"
    and "fragment_of (split_lines doc_table) (all_items (headings gs')) 2 = Some f'"
    and "if 0 < (2 :: nat) \<and> in_table (split_lines doc_table) (all_items (headings gs')) (2 - 1)
         then \<exists>n m. blockId f' = Some (''table-'' @ string_of_nat n)
                \<and> table_at (split_lines doc_table) n m \<and> n < 2 \<and> 2 < n + m
         else blockId f' = None \<and> \<not> isStatic f'"
    by blast
  then have "gs' = gs_table"
    and "fragment_of (split_lines doc_table) (all_items (headings gs')) 2 = Some f'"
    and "if 0 < (2 :: nat) \<and> in_table (split_lines doc_table) (all_items (headings gs')) (2 - 1)
         then \<exists>n m. blockId f' = Some (''table-'' @ string_of_nat n)
                \<and> table_at (split_lines doc_table) n m \<and> n < 2 \<and> 2 < n + m
         else blockId f' = None \<and> \<not> isStatic f'"
    by (simp_all add: parse_doc_table)
  then have g': "gs' = gs_table"
    and ff': "fragment_of (split_lines doc_table) (all_items (headings gs')) 2 = Some f'"
    and fi: "if 0 < (2 :: nat) \<and> in_table (split_lines doc_table) (all_items (headings gs')) (2 - 1)
         then \<exists>n m. blockId f' = Some (''table-'' @ string_of_nat n)
                \<and> table_at (split_lines doc_table) n m \<and> n < 2 \<and> 2 < n + m
         else blockId f' = None \<and> \<not> isStatic f'"
    by blast+
  from ff' have f'eq: "f' = row_1" unfolding g' fragment_table(1) by simp
  from fi [unfolded g' f'eq] fragment_table(2)
  have tf: "\<exists>n m. blockId row_1 = Some (''table-'' @ string_of_nat n)
                \<and> table_at (split_lines doc_table) n m \<and> n < 2 \<and> 2 < n + m"
    by (simp only: if_True simp_thms zero_less_numeral)
  from p parse_doc_pipe fragment_pipe pf t parse_doc_table fragment_table tf
  show ?thesis by blast
qed

text \<open>
  C8 as stated fails for the rows of a table: the third line of the table document starts
  with \<^verbatim>\<open>|\<close> and the line after it is no separator row, but its fragment carries the
  \<open>blockId\<close> of the table.
\<close>

theorem pipe_line_ordinary_counterexample:
  "split_lines doc_table = lines_table
   \<and> 2 < length lines_table
   \<and> lines_table ! 2 = ''| r1 |''
   \<and> startsWith (trim (lines_table ! 2)) ''|''
   \<and> \<not> separatorMatch (nextLine lines_table 2)
   \<and> parseMarkdownToGame ex_rnd doc_table ''notes'' ''notes.md'' = Inr gs_table
   \<and> headings gs_table = [group_T]
   \<and> map text_str (items group_T) = [''| H |'', ''|---|'', ''| r1 |'', ''| r2 |'']
   \<and> map blockId (items group_T)
       = [Some ''table-0'', Some ''table-0'', Some ''table-0'', Some ''table-0'']"
proof -
  have "startsWith (trim (lines_table ! 2)) ''|''"
    by (simp add: lines_table_def string_eval)
  moreover have "\<not> separatorMatch (nextLine lines_table 2)"
    by (simp add: lines_table_def string_eval)
  moreover have "2 < length lines_table" "lines_table ! 2 = ''| r1 |''"
    by (simp_all add: lines_table_def)
  moreover have "headings gs_table = [group_T]" by (simp add: gs_table_def)
  moreover have "map text_str (items group_T) = [''| H |'', ''|---|'', ''| r1 |'', ''| r2 |'']"
    and "map blockId (items group_T)
           = [Some ''table-0'', Some ''table-0'', Some ''table-0'', Some ''table-0'']"
    by (simp_all add: group_T_def row_H_def row_S_def row_1_def row_2_def table_item_def)
  ultimately show ?thesis using split_doc_table parse_doc_table by blast
qed

section \<open>The groups of the parsed document\<close>

lemma flex_heading_title [simp]: "title (fst (flex_heading rnd k h)) = title h"
  by (simp add: flex_heading_def Let_def)

lemma flex_heading_length [simp]:
  "length (items (fst (flex_heading rnd k h))) = length (items h)"
proof -
  have "length (fx_items (fold (flex_step rnd ttl) [0..<n] fs)) = length (fx_items fs)"
    for ttl n fs
    by (induction n) (simp_all add: flex_step_def Let_def)
  then show ?thesis by (simp add: flex_heading_def Let_def flex_init_def)
qed

lemma flex_heading_isRestored [simp]: "isRestored (fst (flex_heading rnd k h)) = isRestored h"
  by (simp add: flex_heading_def Let_def)

lemma flex_all_titles [simp]: "map title (flex_all rnd k hs) = map title hs"
  by (induction hs arbitrary: k) simp_all

lemma flex_all_last:
  assumes "hs \<noteq> []"
  shows "title (last (flex_all rnd k hs)) = title (last hs)"
    and "length (items (last (flex_all rnd k hs))) = length (items (last hs))"
    and "isRestored (last (flex_all rnd k hs)) = isRestored (last hs)"
proof -
  from assms have n: "length hs - 1 < length hs" by (cases hs) simp_all
  from flex_all_nth [OF n, of rnd k]
  obtain k' where "flex_all rnd k hs ! (length hs - 1) = fst (flex_heading rnd k' (hs ! (length hs - 1)))"
    by blast
  moreover have "flex_all rnd k hs \<noteq> []" using assms by (cases hs) simp_all
  then have "last (flex_all rnd k hs) = flex_all rnd k hs ! (length hs - 1)"
    using last_conv_nth [of "flex_all rnd k hs"] by simp
  moreover have "last hs = hs ! (length hs - 1)" using assms by (simp add: last_conv_nth)
  ultimately show "title (last (flex_all rnd k hs)) = title (last hs)"
    and "length (items (last (flex_all rnd k hs))) = length (items (last hs))"
    and "isRestored (last (flex_all rnd k hs)) = isRestored (last hs)"
    by simp_all
qed

text \<open>An inner loop stops at a line that is no row, and so a step does not pass a heading.\<close>

lemma table_rows_stop:
  assumes "i \<le> k" and "k < length lines" and "\<not> startsWith (trim (lines ! k)) ''|''"
  shows "fst (table_rows rnd lines bId i st) \<le> k"
  using assms
proof (induction rnd lines bId i st rule: table_rows.induct)
  case (1 rnd lines bId i st)
  show ?case
  proof (cases "i < length lines \<and> startsWith (trim (lines ! i)) ''|''")
    case True
    with "1.prems" have "i \<noteq> k" by blast
    with "1.prems"(1) have "Suc i \<le> k" by simp
    with True "1.IH" "1.prems"(2,3)
    have "fst (table_rows rnd lines bId (Suc i) (push rnd st (lines ! i) False False (Some bId))) \<le> k"
      by blast
    with True show ?thesis by (subst table_rows.simps) simp
  next
    case False
    then have "table_rows rnd lines bId i st = (i, st)" by (subst table_rows.simps) auto
    with "1.prems"(1) show ?thesis by simp
  qed
qed

lemma callout_rows_stop:
  assumes "i \<le> k" and "k < length lines" and "\<not> startsWith (trim (lines ! k)) ''>''"
  shows "fst (callout_rows rnd lines bId i st) \<le> k"
  using assms
proof (induction rnd lines bId i st rule: callout_rows.induct)
  case (1 rnd lines bId i st)
  show ?case
  proof (cases "i < length lines \<and> startsWith (trim (lines ! i)) ''>''")
    case True
    with "1.prems" have "i \<noteq> k" by blast
    with "1.prems"(1) have "Suc i \<le> k" by simp
    with True "1.IH" "1.prems"(2,3)
    have "fst (callout_rows rnd lines bId (Suc i) (push rnd st (lines ! i) False False (Some bId))) \<le> k"
      by blast
    with True show ?thesis by (subst callout_rows.simps) simp
  next
    case False
    then have "callout_rows rnd lines bId i st = (i, st)" by (subst callout_rows.simps) auto
    with "1.prems"(1) show ?thesis by simp
  qed
qed

lemma parse_step_stops_at_heading:
  assumes "parse_step rnd lines j s = Inr (j', s')" and "j < k" and "k < length lines"
    and "headingMatch (lines ! k) = Some x"
  shows "j' \<le> k"
proof (cases rule: parse_step_cases [of lines j rnd s])
  case table
  have "Suc j \<noteq> k"
  proof
    assume "Suc j = k"
    with table(5) have "nextLine lines j = trim (lines ! k)"
      by (simp add: nextLine_def nth_opt_def)
    with table(4) heading_line(5) [OF assms(4)] show False by simp
  qed
  with assms(2) have "j + 2 \<le> k" by simp
  then have "fst (table_rows rnd lines (''table-'' @ string_of_nat j) (j + 2)
                (push rnd (push rnd s (lines ! j) True False (Some (''table-'' @ string_of_nat j)))
                   (lines ! Suc j) True False (Some (''table-'' @ string_of_nat j)))) \<le> k"
    using assms(3) heading_line(2) [OF assms(4)] by (rule table_rows_stop)
  with table(6) assms(1) show ?thesis by (metis Inr_inject fst_conv)
next
  case callout
  from assms(2) have "Suc j \<le> k" by simp
  then have "fst (callout_rows rnd lines (''callout-'' @ string_of_nat j) (Suc j)
                (push rnd s (lines ! j) True False (Some (''callout-'' @ string_of_nat j)))) \<le> k"
    using assms(3) heading_line(3) [OF assms(4)] by (rule callout_rows_stop)
  with callout(5) assms(1) show ?thesis by (metis Inr_inject fst_conv)
qed (use assms in auto)

lemma parse_step_keeps_group:
  assumes "parse_step rnd lines i st = Inr (i', st')"
    and "\<forall>level ttl. headingMatch (lines ! i) = Some (level, ttl) \<longrightarrow> 2 < level"
  shows "p_headings st' = p_headings st \<and> title (p_current st') = title (p_current st)"
proof (cases rule: parse_step_cases [of lines i rnd st])
  case (heading level ttl)
  with assms(2) show ?thesis by fastforce
next
  case table
  from table(6) assms(1)
  have "st' = snd (table_rows rnd lines (''table-'' @ string_of_nat i) (i + 2)
               (push rnd (push rnd st (lines ! i) True False (Some (''table-'' @ string_of_nat i)))
                  (lines ! Suc i) True False (Some (''table-'' @ string_of_nat i))))"
    by (metis Inr_inject snd_conv)
  then show ?thesis by simp
next
  case callout
  from callout(5) assms(1)
  have "st' = snd (callout_rows rnd lines (''callout-'' @ string_of_nat i) (Suc i)
               (push rnd st (lines ! i) True False (Some (''callout-'' @ string_of_nat i))))"
    by (metis Inr_inject snd_conv)
  then show ?thesis by simp
qed (use assms in auto)

lemma split_lines_nonempty: "split_lines content \<noteq> []"
proof -
  have "split_from cur cs \<noteq> []" for cur cs
    by (induction cur cs rule: split_from.induct) auto
  then show ?thesis by (simp add: split_lines_def)
qed

lemma last_heading_group:
  assumes loop: "parse_loop rnd lines 0 parse_init = Inr st'" and "lines \<noteq> []"
    and h: "headingMatch (last lines) = Some (level, ttl)" and "level \<le> 2"
  shows "p_current st' = \<lparr>title = ttl, items = [], isRestored = False\<rparr>"
proof -
  from assms(2) h have hl: "headingMatch (lines ! (length lines - 1)) = Some (level, ttl)"
    by (simp add: last_conv_nth)
  define k where "k = length lines - 1"
  have k: "k < length lines" "length lines = Suc k"
    using assms(2) by (cases lines; simp add: k_def)+
  have hk: "headingMatch (lines ! k) = Some (level, ttl)"
    using hl by (simp only: k_def)
  let ?I = "\<lambda>j s. j \<le> k \<or> (j = Suc k \<and> p_current s = \<lparr>title = ttl, items = [], isRestored = False\<rparr>)"
  have "\<exists>j. length lines \<le> j \<and> ?I j st'"
    using loop
  proof (rule parse_loop_invariant [where I = ?I])
    show "?I 0 parse_init" by simp
  next
    fix j s j' s'
    assume I: "?I j s" and j: "j < length lines" and step: "parse_step rnd lines j s = Inr (j', s')"
    from I j k(2) have "j \<le> k" by auto
    then consider "j < k" | "j = k" by fastforce
    then show "?I j' s'"
    proof cases
      case 1
      have "j' \<le> k" by (rule parse_step_stops_at_heading [OF step 1 k(1) hk])
      then show ?thesis by simp
    next
      case 2
      have "lines ! k \<noteq> []" using hk by (rule heading_line(1))
      from parse_step_heading [OF this hk assms(4), of rnd s] step 2
      have "j' = Suc k"
        and "s' = s\<lparr>p_headings := (if length (items (p_current s)) > 0
                                      then p_headings s @ [p_current s] else p_headings s),
                     p_current := \<lparr>title = ttl, items = [], isRestored = False\<rparr>\<rparr>"
        by simp_all
      then have "j' = Suc k" and "p_current s' = \<lparr>title = ttl, items = [], isRestored = False\<rparr>"
        by simp_all
      then show ?thesis by blast
    qed
  qed
  with k(2) show ?thesis by auto
qed

lemma intro_only_group:
  assumes loop: "parse_loop rnd lines 0 parse_init = Inr st'"
    and "\<forall>l\<in>set lines. \<forall>level ttl. headingMatch l = Some (level, ttl) \<longrightarrow> 2 < level"
  shows "p_headings st' = [] \<and> title (p_current st') = ''Introduction''"
proof -
  let ?I = "\<lambda>(j :: nat) s. p_headings s = [] \<and> title (p_current s) = ''Introduction''"
  have "\<exists>j. length lines \<le> j \<and> ?I j st'"
    using loop
  proof (rule parse_loop_invariant [where I = ?I])
    show "?I 0 parse_init" by (simp add: parse_init_def)
  next
    fix j s j' s'
    assume I: "?I j s" and j: "j < length lines" and step: "parse_step rnd lines j s = Inr (j', s')"
    from j assms(2) have "\<forall>level ttl. headingMatch (lines ! j) = Some (level, ttl) \<longrightarrow> 2 < level"
      by (meson nth_mem)
    with step have "p_headings s' = p_headings s \<and> title (p_current s') = title (p_current s)"
      by (rule parse_step_keeps_group)
    with I show "?I j' s'" by simp
  qed
  then show ?thesis by blast
qed

text \<open>
  C10. The parser returns at least one group. It starts with an empty group titled
  \<^verbatim>\<open>Introduction\<close>; a step at a line that is no level-1 or level-2 heading leaves the
  groups pushed so far and the title of the group in progress as they are, and a step at
  such a heading pushes the group in progress only if it has a fragment and opens an empty
  group with the heading's title. The group in progress at the end is appended in any
  case: so the empty document gives exactly the empty group \<^verbatim>\<open>Introduction\<close>, a
  document without such headings gives the one group \<^verbatim>\<open>Introduction\<close>, and a document
  whose last line is such a heading ends with an empty group of that title.
\<close>

theorem parser_groups:
  assumes "parseMarkdownToGame rnd content fName fPath = Inr gs"
  shows "headings gs \<noteq> []
    \<and> (content = [] \<longrightarrow>
          headings gs = [\<lparr>title = ''Introduction'', items = [], isRestored = False\<rparr>])
    \<and> ((\<forall>l\<in>set (split_lines content). \<forall>level ttl.
            headingMatch l = Some (level, ttl) \<longrightarrow> 2 < level) \<longrightarrow>
          map title (headings gs) = [''Introduction''])
    \<and> (\<forall>level ttl. headingMatch (last (split_lines content)) = Some (level, ttl) \<and> level \<le> 2 \<longrightarrow>
          last (headings gs) = \<lparr>title = ttl, items = [], isRestored = False\<rparr>)
    \<and> p_headings parse_init = []
    \<and> p_current parse_init = \<lparr>title = ''Introduction'', items = [], isRestored = False\<rparr>
    \<and> (\<forall>lines i st i' st'.
          (\<forall>level ttl. headingMatch (lines ! i) = Some (level, ttl) \<longrightarrow> 2 < level)
          \<and> parse_step rnd lines i st = Inr (i', st') \<longrightarrow>
          p_headings st' = p_headings st \<and> title (p_current st') = title (p_current st))
    \<and> (\<forall>lines i st level ttl.
          headingMatch (lines ! i) = Some (level, ttl) \<and> level \<le> 2 \<longrightarrow>
          parse_step rnd lines i st
            = Inr (Suc i,
                   st\<lparr>p_headings := (if length (items (p_current st)) > 0
                                       then p_headings st @ [p_current st] else p_headings st),
                      p_current := \<lparr>title = ttl, items = [], isRestored = False\<rparr>\<rparr>))"
proof -
  from assms obtain st
    where loop: "parse_loop rnd (split_lines content) 0 parse_init = Inr st"
      and hs: "headings gs = flex_all rnd (p_rand st) (p_headings st @ [p_current st])"
    by (rule parse_result)
  have 1: "headings gs \<noteq> []"
  proof
    assume "headings gs = []"
    then have "length (flex_all rnd (p_rand st) (p_headings st @ [p_current st])) = 0"
      using hs by simp
    then show False by simp
  qed
  have 2: "content = [] \<longrightarrow>
             headings gs = [\<lparr>title = ''Introduction'', items = [], isRestored = False\<rparr>]"
    using assms by (auto simp: parse_empty)
  have 3: "(\<forall>l\<in>set (split_lines content). \<forall>level ttl.
              headingMatch l = Some (level, ttl) \<longrightarrow> 2 < level) \<longrightarrow>
           map title (headings gs) = [''Introduction'']"
  proof
    assume "\<forall>l\<in>set (split_lines content). \<forall>level ttl.
              headingMatch l = Some (level, ttl) \<longrightarrow> 2 < level"
    with loop have "p_headings st = [] \<and> title (p_current st) = ''Introduction''"
      by (rule intro_only_group)
    then show "map title (headings gs) = [''Introduction'']" by (simp add: hs)
  qed
  have 4: "\<forall>level ttl. headingMatch (last (split_lines content)) = Some (level, ttl) \<and> level \<le> 2 \<longrightarrow>
             last (headings gs) = \<lparr>title = ttl, items = [], isRestored = False\<rparr>"
  proof (intro allI impI)
    fix level ttl
    assume a: "headingMatch (last (split_lines content)) = Some (level, ttl) \<and> level \<le> 2"
    with loop split_lines_nonempty
    have cur: "p_current st = \<lparr>title = ttl, items = [], isRestored = False\<rparr>"
      using last_heading_group by blast
    have ne: "p_headings st @ [p_current st] \<noteq> []" by simp
    from flex_all_last [OF ne, of rnd "p_rand st"] cur hs
    have "title (last (headings gs)) = ttl" and "items (last (headings gs)) = []"
      and "isRestored (last (headings gs)) = False"
      by simp_all
    then show "last (headings gs) = \<lparr>title = ttl, items = [], isRestored = False\<rparr>"
      by (cases "last (headings gs)") simp
  qed
  have 5: "p_headings parse_init = []"
    "p_current parse_init = \<lparr>title = ''Introduction'', items = [], isRestored = False\<rparr>"
    by (simp_all add: parse_init_def)
  have 6: "\<forall>lines i st i' st'.
          (\<forall>level ttl. headingMatch (lines ! i) = Some (level, ttl) \<longrightarrow> 2 < level)
          \<and> parse_step rnd lines i st = Inr (i', st') \<longrightarrow>
          p_headings st' = p_headings st \<and> title (p_current st') = title (p_current st)"
    using parse_step_keeps_group by blast
  have 7: "\<forall>lines i st level ttl.
          headingMatch (lines ! i) = Some (level, ttl) \<and> level \<le> 2 \<longrightarrow>
          parse_step rnd lines i st
            = Inr (Suc i,
                   st\<lparr>p_headings := (if length (items (p_current st)) > 0
                                       then p_headings st @ [p_current st] else p_headings st),
                      p_current := \<lparr>title = ttl, items = [], isRestored = False\<rparr>\<rparr>)"
    using parse_step_heading heading_line(1) by blast
  from 1 2 3 4 5 6 7 show ?thesis by blast
qed

theorem parser_groups_witness:
  "parseMarkdownToGame ex_rnd doc_last ''notes'' ''notes.md'' = Inr gs_last
   \<and> headings gs_last \<noteq> []
   \<and> headingMatch (last (split_lines doc_last)) = Some (1, ''T'')
   \<and> last (headings gs_last) = \<lparr>title = ''T'', items = [], isRestored = False\<rparr>
   \<and> title (hd (headings gs_last)) = ''Introduction''
   \<and> map text_str (items (hd (headings gs_last))) = [''x'']"
proof -
  have h: "headingMatch (last (split_lines doc_last)) = Some (1, ''T'')"
    by (simp add: split_doc_last string_eval)
  from parser_groups [OF parse_doc_last]
  have ne: "headings gs_last \<noteq> []"
    and "\<forall>level ttl. headingMatch (last (split_lines doc_last)) = Some (level, ttl) \<and> level \<le> 2 \<longrightarrow>
           last (headings gs_last) = \<lparr>title = ttl, items = [], isRestored = False\<rparr>"
    by blast+
  with h have l: "last (headings gs_last) = \<lparr>title = ''T'', items = [], isRestored = False\<rparr>"
    by simp
  have "title (hd (headings gs_last)) = ''Introduction''"
    and "map text_str (items (hd (headings gs_last))) = [''x'']"
    by (simp_all add: gs_last_def plain_item_def)
  with parse_doc_last ne h l show ?thesis by blast
qed

section \<open>Rounding\<close>

lemma bitlen_nonneg: "0 \<le> bitlen n"
proof (induction n rule: bitlen.induct)
  case (1 n)
  show ?case
  proof (cases "n \<le> 0")
    case True
    then show ?thesis by (subst bitlen.simps) simp
  next
    case False
    with "1.IH" have "0 \<le> bitlen (n div 2)" by simp
    with False show ?thesis by (subst bitlen.simps) simp
  qed
qed

lemma bitlen_bounds:
  assumes "0 < n"
  shows "2 ^ nat (bitlen n - 1) \<le> n \<and> n < 2 ^ nat (bitlen n)"
  using assms
proof (induction n rule: bitlen.induct)
  case (1 n)
  have unfold: "bitlen n = 1 + bitlen (n div 2)"
    using "1.prems" by (subst bitlen.simps) simp
  show ?case
  proof (cases "n div 2 = 0")
    case True
    with "1.prems" have "n = 1" by presburger
    moreover have "bitlen 0 = 0" by (subst bitlen.simps) simp
    ultimately show ?thesis using unfold by simp
  next
    case False
    with "1.prems" have pos: "0 < n div 2" by presburger
    with "1.IH" "1.prems"
    have IH: "2 ^ nat (bitlen (n div 2) - 1) \<le> n div 2" "n div 2 < 2 ^ nat (bitlen (n div 2))"
      by simp_all
    have b1: "1 \<le> bitlen (n div 2)"
      using pos bitlen_nonneg [of "n div 2 div 2"] by (subst bitlen.simps) simp
    then have s: "nat (bitlen (n div 2)) = Suc (nat (bitlen (n div 2) - 1))" by simp
    have lo: "(2::int) ^ nat (bitlen (n div 2)) \<le> n"
    proof -
      have "(2::int) ^ nat (bitlen (n div 2)) = 2 * 2 ^ nat (bitlen (n div 2) - 1)"
        by (subst s) simp
      also have "\<dots> \<le> 2 * (n div 2)" using IH(1) by simp
      also have "\<dots> \<le> n" by presburger
      finally show ?thesis .
    qed
    have hi: "n < 2 * 2 ^ nat (bitlen (n div 2))"
    proof -
      from IH(2) have "n div 2 + 1 \<le> 2 ^ nat (bitlen (n div 2))" by simp
      then have "2 * (n div 2) + 2 \<le> 2 * 2 ^ nat (bitlen (n div 2))" by simp
      moreover have "n < 2 * (n div 2) + 2" by presburger
      ultimately show ?thesis by linarith
    qed
    from b1 have "nat (bitlen n - 1) = nat (bitlen (n div 2))"
      and "nat (bitlen n) = Suc (nat (bitlen (n div 2)))"
      by (simp_all add: unfold)
    with lo hi show ?thesis by simp
  qed
qed

lemma bitlen_pos: "0 < n \<Longrightarrow> 1 \<le> bitlen n"
  using bitlen_nonneg [of "n div 2"] by (subst bitlen.simps) simp

lemma ilog2_lower:
  assumes "0 < x"
  shows "2 powi (ilog2 x) \<le> x"
proof -
  obtain p q where pq: "quotient_of x = (p, q)" by (cases "quotient_of x")
  then have q: "0 < q" by (rule quotient_of_denom_pos)
  from pq have x: "x = of_int p / of_int q" by (rule quotient_of_div)
  with assms q have p: "0 < p" by (simp add: zero_less_divide_iff)
  let ?a = "bitlen p" and ?b = "bitlen q"
  show ?thesis
  proof (cases "(2::rat) powi (?a - ?b) \<le> x")
    case True
    then show ?thesis by (simp add: ilog2_def Let_def pq)
  next
    case False
    have a1: "1 \<le> ?a" using p by (rule bitlen_pos)
    have b0: "0 \<le> ?b" by (rule bitlen_nonneg)
    from bitlen_bounds [OF p] have "(2::int) ^ nat (?a - 1) \<le> p" by simp
    then have "(of_int ((2::int) ^ nat (?a - 1)) :: rat) \<le> of_int p" by (simp only: of_int_le_iff)
    then have lo: "(2::rat) powi (?a - 1) \<le> of_int p"
      using a1 by (simp add: power_int_nonneg_exp)
    from bitlen_bounds [OF q] have "q < (2::int) ^ nat ?b" by simp
    then have "(of_int q :: rat) < of_int ((2::int) ^ nat ?b)" by (simp only: of_int_less_iff)
    then have hi: "of_int q \<le> (2::rat) powi ?b"
      using b0 by (simp add: power_int_nonneg_exp)
    have "(2::rat) powi (?a - ?b - 1) = 2 powi (?a - 1) / 2 powi ?b"
      using power_int_diff [of "2::rat" "?a - 1" ?b] by (simp add: algebra_simps)
    also have "\<dots> \<le> of_int p / 2 powi ?b"
      using lo by (simp add: divide_right_mono)
    also have "\<dots> \<le> of_int p / of_int q"
      using hi p q by (simp add: divide_left_mono)
    finally have "(2::rat) powi (?a - ?b - 1) \<le> x" by (simp only: x)
    with False show ?thesis by (simp add: ilog2_def Let_def pq)
  qed
qed

lemma round_half_even_upper: "of_int (round_half_even q) \<le> q + 1 / 2"
proof -
  define r where "r = q - of_int \<lfloor>q\<rfloor>"
  have f: "of_int \<lfloor>q\<rfloor> = q - r" by (simp add: r_def)
  have r0: "0 \<le> r" by (simp add: r_def)
  consider "r < 1 / 2" | "1 / 2 < r" | "r = 1 / 2" by linarith
  then show ?thesis
  proof cases
    case 1
    then have "round_half_even q = \<lfloor>q\<rfloor>" by (simp add: round_half_even_def Let_def r_def)
    with f r0 show ?thesis by simp
  next
    case 2
    then have "round_half_even q = \<lfloor>q\<rfloor> + 1"
      by (simp add: round_half_even_def Let_def r_def)
    with f 2 show ?thesis by simp
  next
    case 3
    then have "round_half_even q = \<lfloor>q\<rfloor> \<or> round_half_even q = \<lfloor>q\<rfloor> + 1"
      by (simp add: round_half_even_def Let_def r_def)
    with f 3 show ?thesis by auto
  qed
qed

lemma round_double_upper:
  assumes "0 < x"
  shows "round_double x \<le> x * (1 + 1 / 2 ^ 53)"
proof -
  let ?u = "(2::rat) powi (ilog2 x - 52)"
  have u: "0 < ?u" by simp
  have "round_double x = of_int (round_half_even (x / ?u)) * ?u"
    using assms by (simp add: round_double_def)
  also have "\<dots> \<le> (x / ?u + 1 / 2) * ?u"
    using round_half_even_upper [of "x / ?u"] u by (simp only: mult_right_mono less_imp_le)
  also have "\<dots> = x + ?u / 2" using u by (simp add: field_simps)
  also have "?u = 2 powi (ilog2 x) / 2 ^ 52"
    using power_int_diff [of "2::rat" "ilog2 x" 52] by simp
  also have "x + 2 powi (ilog2 x) / 2 ^ 52 / 2 \<le> x + x / 2 ^ 52 / 2"
    using ilog2_lower [OF assms] by (simp add: divide_right_mono)
  also have "\<dots> = x * (1 + 1 / 2 ^ 53)" by (simp add: field_simps)
  finally show ?thesis .
qed


section \<open>The session generator\<close>

lemma prefill_values:
  "round_double (7 / 10) = 3152519739159347 / 4503599627370496"
  "round_double (4 / 10) = 3602879701896397 / 9007199254740992"
  "round_double (1 / 10) = 3602879701896397 / 36028797018963968"
  by code_simp+

lemma prefill_bounds:
  "0 < round_double (7 / 10)" "round_double (7 / 10) * (1 + 1 / 2 ^ 53) \<le> 1"
  "0 < round_double (4 / 10)" "round_double (4 / 10) * (1 + 1 / 2 ^ 53) \<le> 1"
  "0 < round_double (1 / 10)" "round_double (1 / 10) * (1 + 1 / 2 ^ 53) \<le> 1"
  by code_simp+

lemma prefillPercent_bounds:
  "0 < prefillPercent (DIFFICULTY_CONFIG d)"
  "prefillPercent (DIFFICULTY_CONFIG d) * (1 + 1 / 2 ^ 53) \<le> 1"
proof -
  have "prefillPercent (DIFFICULTY_CONFIG d) = round_double (7 / 10)
        \<or> prefillPercent (DIFFICULTY_CONFIG d) = round_double (4 / 10)
        \<or> prefillPercent (DIFFICULTY_CONFIG d) = round_double (1 / 10)"
    by (cases d) (simp_all only: DIFFICULTY_CONFIG_def Difficulty.case DifficultyConfig.select_convs
                    simp_thms)
  then show "0 < prefillPercent (DIFFICULTY_CONFIG d)"
    and "prefillPercent (DIFFICULTY_CONFIG d) * (1 + 1 / 2 ^ 53) \<le> 1"
    using prefill_bounds by metis+
qed

lemma round_double_zero [simp]: "round_double 0 = 0"
  by (simp add: round_double_def)

lemma numToPrefill_le: "numToPrefill d n \<le> n"
proof (cases "n = 0")
  case True
  then show ?thesis by (simp add: numToPrefill_def fmul_def)
next
  case False
  let ?c = "prefillPercent (DIFFICULTY_CONFIG d)"
  from False have n: "0 < (of_nat n :: rat)" by simp
  with prefillPercent_bounds(1) [of d] have "0 < of_nat n * ?c" by simp
  then have "round_double (of_nat n * ?c) \<le> of_nat n * ?c * (1 + 1 / 2 ^ 53)"
    by (rule round_double_upper)
  also have "\<dots> = of_nat n * (?c * (1 + 1 / 2 ^ 53))" by (simp only: mult.assoc)
  also have "\<dots> \<le> of_nat n * 1"
    using prefillPercent_bounds(2) [of d] n by (intro mult_left_mono) simp_all
  finally have "round_double (of_nat n * ?c) \<le> of_nat n" by simp
  then have "\<lfloor>round_double (of_nat n * ?c)\<rfloor> \<le> \<lfloor>(of_nat n :: rat)\<rfloor>" by (rule floor_mono)
  then show ?thesis by (simp add: numToPrefill_def fmul_def)
qed

lemma random_number_bounds:
  "0 \<le> random_number rand k" "random_number rand k \<le> 1 - 1 / 2 ^ 53"
proof -
  let ?z = "int (rand k) mod 2 ^ 53"
  have "0 \<le> ?z" by simp
  then have "(0::rat) \<le> of_int ?z" by (simp only: of_int_0_le_iff)
  then show "0 \<le> random_number rand k" by (simp add: random_number_def)
  have "?z < 2 ^ 53" by simp
  then have "?z \<le> 2 ^ 53 - 1" by simp
  then have "(of_int ?z :: rat) \<le> of_int (2 ^ 53 - 1)" by (simp only: of_int_le_iff)
  then have "(of_int ?z :: rat) \<le> 2 ^ 53 - 1" by simp
  then have "(of_int ?z :: rat) / 2 ^ 53 \<le> (2 ^ 53 - 1) / 2 ^ 53"
    by (simp only: divide_right_mono zero_le_numeral zero_le_power)
  then show "random_number rand k \<le> 1 - 1 / 2 ^ 53"
    by (simp add: random_number_def)
qed

lemma randomIndex_less:
  assumes "0 < n"
  shows "randomIndex rand k n < n"
proof (cases "random_number rand k = 0")
  case True
  with assms show ?thesis by (simp add: randomIndex_def fmul_def)
next
  case False
  let ?r = "random_number rand k"
  from False random_number_bounds(1) [of rand k] have r: "0 < ?r" by simp
  from assms have n: "0 < (of_nat n :: rat)" by simp
  with r have "0 < ?r * of_nat n" by simp
  then have "round_double (?r * of_nat n) \<le> ?r * of_nat n * (1 + 1 / 2 ^ 53)"
    by (rule round_double_upper)
  also have "\<dots> = (?r * (1 + 1 / 2 ^ 53)) * of_nat n" by (simp only: mult_ac)
  also have "\<dots> \<le> ((1 - 1 / 2 ^ 53) * (1 + 1 / 2 ^ 53)) * of_nat n"
    using random_number_bounds(2) [of rand k] n
    by (intro mult_right_mono) simp_all
  also have "\<dots> < 1 * of_nat n"
    using n by (intro mult_strict_right_mono) simp_all
  finally have "round_double (?r * of_nat n) < of_nat n" by simp
  then have "\<lfloor>round_double (?r * of_nat n)\<rfloor> < int n"
    by (simp add: floor_less_iff)
  then have "nat \<lfloor>round_double (?r * of_nat n)\<rfloor> < n"
    using assms by linarith
  then show ?thesis by (simp add: randomIndex_def fmul_def)
qed

lemma pick_intruders_returns: "\<exists>ins. pick_intruders rand others n k = Inr ins"
proof (induction n arbitrary: k)
  case 0
  show ?case by simp
next
  case (Suc n)
  show ?case
  proof (cases "nth_opt others (randomIndex rand k (length others))")
    case None
    with Suc [of "Suc k"] show ?thesis by simp
  next
    case (Some randomH)
    show ?thesis
    proof (cases "length (items randomH) > 0")
      case False
      with Some Suc [of "Suc k"] show ?thesis by simp
    next
      case True
      then have "randomIndex rand (Suc k) (length (items randomH)) < length (items randomH)"
        by (rule randomIndex_less)
      then obtain randomI
        where "nth_opt (items randomH) (randomIndex rand (Suc k) (length (items randomH)))
                 = Some randomI"
        by (simp add: nth_opt_def)
      moreover obtain rest where "pick_intruders rand others n (Suc (Suc k)) = Inr rest"
        using Suc by blast
      ultimately show ?thesis using Some True by simp
    qed
  qed
qed

lemma startSession_returns:
  assumes "index < length (headings st)"
  shows "\<exists>st'. startSession rand shuffle index st = Inr st'"
proof -
  have "\<exists>ins. sessionIntruders rand st index = Inr ins"
  proof (cases "length (otherHeadings (headings st) index) > 0")
    case True
    then show ?thesis
      using pick_intruders_returns [of rand "otherHeadings (headings st) index"]
      by (simp add: sessionIntruders_def)
  next
    case False
    then show ?thesis by (simp add: sessionIntruders_def)
  qed
  then obtain ins where "sessionIntruders rand st index = Inr ins" by blast
  with assms show ?thesis by (simp add: startSession_def nth_opt_def Let_def)
qed

lemma weightedItems_indices: "map fst (weightedItems rand its idxs k) = idxs"
  by (induction idxs arbitrary: k) simp_all

lemma distinct_playableIndices: "distinct (playableIndices h)"
  by (simp add: playableIndices_def)

lemma prefilledSet_subset: "prefilledSet rand d h \<subseteq> set (playableIndices h)"
proof -
  let ?w = "weightedItems rand (items h) (playableIndices h) 0"
  let ?s = "sort_key (\<lambda>w. - snd w) ?w"
  let ?n = "numToPrefill d (length (playableIndices h))"
  have "set (take ?n ?s) \<subseteq> set ?w" using set_take_subset [of ?n ?s] by simp
  then have "fst ` set (take ?n ?s) \<subseteq> fst ` set ?w" by (rule image_mono)
  also have "fst ` set ?w = set (map fst ?w)" by simp
  also have "\<dots> = set (playableIndices h)" by (simp only: weightedItems_indices)
  finally show ?thesis by (simp add: prefilledSet_def)
qed

lemma card_prefilledSet:
  "card (prefilledSet rand d h) = numToPrefill d (length (playableIndices h))"
proof -
  let ?w = "weightedItems rand (items h) (playableIndices h) 0"
  let ?s = "sort_key (\<lambda>w. - snd w) ?w"
  let ?n = "numToPrefill d (length (playableIndices h))"
  have "distinct (map fst ?w)"
    by (simp only: weightedItems_indices distinct_playableIndices)
  then have "distinct (map fst ?s)" by (simp add: distinct_map)
  then have "distinct (take ?n (map fst ?s))" by (rule distinct_take)
  then have "card (set (take ?n (map fst ?s))) = length (take ?n (map fst ?s))"
    by (rule distinct_card)
  also have "\<dots> = min ?n (length (playableIndices h))"
    using arg_cong [OF weightedItems_indices [of rand "items h" "playableIndices h" 0], of length]
    by (simp add: min.commute)
  also have "\<dots> = ?n" using numToPrefill_le [of d "length (playableIndices h)"] by simp
  finally show ?thesis by (simp add: prefilledSet_def take_map)
qed

lemma fill_slots_length [simp]: "length (fill_slots pre xs sl) = length sl"
  by (induction pre xs sl rule: fill_slots.induct) simp_all

lemma fill_slots_enumerate:
  assumes "n + length its \<le> length sl" and "idx < length sl"
  shows "fill_slots pre (enumerate n its) sl ! idx =
           (if n \<le> idx \<and> idx < n + length its \<and> (isStatic (its ! (idx - n)) \<or> idx \<in> pre)
            then Some (its ! (idx - n)) else sl ! idx)"
  using assms
proof (induction its arbitrary: n sl)
  case Nil
  then show ?case by auto
next
  case (Cons f its)
  let ?sl = "if isStatic f \<or> n \<in> pre then sl[n := Some f] else sl"
  have len: "length ?sl = length sl" by simp
  from Cons.prems have a: "Suc n + length its \<le> length ?sl" and b: "idx < length ?sl"
    by simp_all
  have "fill_slots pre (enumerate n (f # its)) sl ! idx
          = fill_slots pre (enumerate (Suc n) its) ?sl ! idx"
    by simp
  also have "\<dots> = (if Suc n \<le> idx \<and> idx < Suc n + length its
                         \<and> (isStatic (its ! (idx - Suc n)) \<or> idx \<in> pre)
                      then Some (its ! (idx - Suc n)) else ?sl ! idx)"
    by (rule Cons.IH [OF a b])
  also have "\<dots> = (if n \<le> idx \<and> idx < n + length (f # its)
                         \<and> (isStatic ((f # its) ! (idx - n)) \<or> idx \<in> pre)
                      then Some ((f # its) ! (idx - n)) else sl ! idx)"
  proof (cases "idx = n")
    case True
    with Cons.prems show ?thesis by simp
  next
    case False
    then show ?thesis
      by (cases "n < idx") (auto simp: Suc_diff_Suc nth_Cons' not_less)
  qed
  finally show ?case .
qed

lemma initialSlots_nth:
  assumes "idx < length (items h)"
  shows "initialSlots pre h ! idx =
           (if isStatic (items h ! idx) \<or> idx \<in> pre then Some (items h ! idx) else None)"
  using assms fill_slots_enumerate [of 0 "items h" "replicate (length (items h)) None" idx pre]
  by (simp add: initialSlots_def)

lemma initialSlots_length [simp]: "length (initialSlots pre h) = length (items h)"
  by (simp add: initialSlots_def)

lemma playable_count:
  "length (playableIndices h) = length (filter (\<lambda>f. \<not> isStatic f) (items h))"
proof -
  have "filter (\<lambda>f. \<not> isStatic f) (map ((!) (items h)) [0..<length (items h)])
          = map ((!) (items h)) (filter (\<lambda>idx. \<not> isStatic (items h ! idx)) [0..<length (items h)])"
    by (simp add: filter_map comp_def)
  then have "length (filter (\<lambda>f. \<not> isStatic f) (items h))
               = length (filter (\<lambda>idx. \<not> isStatic (items h ! idx)) [0..<length (items h)])"
    by (simp add: map_nth)
  then show ?thesis by (simp add: playableIndices_def)
qed

lemma startSession_result:
  assumes "startSession rand shuffle index st = Inr st'"
  shows "index < length (headings st)"
    and "activeHeadingIndex st' = Some index"
    and "prefilledIndices st' = prefilledSet rand (difficulty st) (headings st ! index)"
    and "slots st' = initialSlots (prefilledIndices st') (headings st ! index)"
    and "headings st' = headings st" and "difficulty st' = difficulty st"
  using assms
  by (auto simp: startSession_def nth_opt_def Let_def split: if_splits sum.splits)

end
